theory Spec2Isabelle
  imports Main
begin

section \<open>Control-flow simplification passes of \<^verbatim>\<open>passes/mid/clearPass.py\<close>\<close>

subsection \<open>Data model\<close>

text \<open>
  Expressions, as far as the passes look into them: a literal constant
  (\<^verbatim>\<open>MediumLevelILConst\<close>, with its \<^verbatim>\<open>constant\<close>), a variable
  (\<^verbatim>\<open>MediumLevelILVar\<close>), an expression with \<^verbatim>\<open>left\<close> and \<^verbatim>\<open>right\<close>
  operands, and every other expression, kept opaque.
\<close>

datatype expr =
    Const int
  | Var nat
  | BinOp nat expr expr
  | OtherExpr nat

text \<open>
  Instructions, as far as the passes tell them apart: \<^verbatim>\<open>MediumLevelILGoto\<close> with
  its \<^verbatim>\<open>dest\<close>, \<^verbatim>\<open>MediumLevelILIf\<close> with \<^verbatim>\<open>condition\<close>, \<^verbatim>\<open>true\<close> and
  \<^verbatim>\<open>false\<close>, \<^verbatim>\<open>MediumLevelILRet\<close>, and every other instruction, kept opaque.
  Targets are instruction indices.
\<close>

datatype op =
    Goto nat
  | If_op expr nat nat
  | Ret nat
  | Other nat

text \<open>
  An instruction object as Python holds it: a snapshot of the operation together with
  its \<^verbatim>\<open>instr_index\<close>. The model addresses an instruction's expression slot
  (\<^verbatim>\<open>expr_index\<close>) by the same index.
\<close>

datatype instr = Instr (instr_index: nat) (op_of: op)

datatype block = Block (bb_start: nat) (bb_end: nat)

text \<open>
  What the passes do to the outside world besides editing the function: messages to the
  logger and the two re-derivation calls. \<open>ScanDone u\<close> is an observation marker
  written by the model at the end of every scan over the blocks, with the value of the
  \<^verbatim>\<open>updated\<close> flag at that point; it stands for no call of the source.
\<close>

datatype event =
    LogInfo nat nat
  | LogError "instr list"
  | Finalize
  | GenerateSSA
  | ScanDone bool

datatype error =
    IndexError
  | AttributeError
  | RecursionError
  | InvalidIfCondition

record mlil =
  instrs :: "op list"
  basic_blocks :: "block list"
  trace :: "event list"

text \<open>
  The analysis context: \<^verbatim>\<open>analysis_context.mlil\<close> and
  \<^verbatim>\<open>analysis_context.function.mlil\<close>, each of which may be \<^verbatim>\<open>None\<close>.
\<close>

record analysis_context =
  ctx_mlil :: "mlil option"
  ctx_function_mlil :: "mlil option"

subsection \<open>The IR access layer\<close>

text \<open>
  Modelled from the spec: the IR access layer (section 6 of the specification) is the
  Binary Ninja API, which is not part of the repository. Lookup by index fails with
  \<^verbatim>\<open>IndexError\<close> outside the function; replacing writes the new operation at the
  instruction's index; appending adds at the end; marking a label binds it to the
  position of the next instruction to be appended. How block boundaries are re-derived
  by \<^verbatim>\<open>finalize\<close> is left open: it is a parameter \<open>fin\<close> of every pass.
\<close>

definition getitem :: "mlil \<Rightarrow> nat \<Rightarrow> error + instr" where
  "getitem m i =
     (if i < length (instrs m) then Inr (Instr i (instrs m ! i)) else Inl IndexError)"

definition replace_expr :: "mlil \<Rightarrow> nat \<Rightarrow> op \<Rightarrow> mlil" where
  "replace_expr m i new = m\<lparr>instrs := (instrs m)[i := new]\<rparr>"

definition append_instr :: "mlil \<Rightarrow> op \<Rightarrow> mlil" where
  "append_instr m new = m\<lparr>instrs := instrs m @ [new]\<rparr>"

definition mark_label :: "mlil \<Rightarrow> nat" where
  "mark_label m = length (instrs m)"

definition copy_expr :: "instr \<Rightarrow> op" where
  "copy_expr x = op_of x"

definition finalize :: "(op list \<Rightarrow> block list) \<Rightarrow> mlil \<Rightarrow> mlil" where
  "finalize fin m = m\<lparr>basic_blocks := fin (instrs m), trace := trace m @ [Finalize]\<rparr>"

definition generate_ssa_form :: "mlil \<Rightarrow> mlil" where
  "generate_ssa_form m = m\<lparr>trace := trace m @ [GenerateSSA]\<rparr>"

definition log_info :: "mlil \<Rightarrow> nat \<Rightarrow> nat \<Rightarrow> mlil" where
  "log_info m a b = m\<lparr>trace := trace m @ [LogInfo a b]\<rparr>"

definition log_error :: "mlil \<Rightarrow> instr list \<Rightarrow> mlil" where
  "log_error m xs = m\<lparr>trace := trace m @ [LogError xs]\<rparr>"

definition scan_done :: "mlil \<Rightarrow> bool \<Rightarrow> mlil" where
  "scan_done m u = m\<lparr>trace := trace m @ [ScanDone u]\<rparr>"

text \<open>\<^verbatim>\<open>bb[-1]\<close>: the last instruction of a block; an empty block has none.\<close>

definition bb_last :: "mlil \<Rightarrow> block \<Rightarrow> error + instr" where
  "bb_last m bb =
     (if bb_end bb \<le> bb_start bb then Inl IndexError else getitem m (bb_end bb - 1))"

fun is_goto :: "instr \<Rightarrow> bool" where
  "is_goto (Instr _ (Goto _)) = True"
| "is_goto _ = False"

fun is_if :: "instr \<Rightarrow> bool" where
  "is_if (Instr _ (If_op _ _ _)) = True"
| "is_if _ = False"

fun is_ret :: "instr \<Rightarrow> bool" where
  "is_ret (Instr _ (Ret _)) = True"
| "is_ret _ = False"

subsection \<open>\<^verbatim>\<open>pass_clear_const_if\<close>\<close>

text \<open>The body of the loop over the blocks, for one block.\<close>

definition const_if_step :: "mlil \<Rightarrow> bool \<Rightarrow> block \<Rightarrow> error + mlil \<times> bool" where
  "const_if_step m updated bb =
     (case bb_last m bb of
        Inl e \<Rightarrow> Inl e
      | Inr if_instr \<Rightarrow>
          (case op_of if_instr of
             If_op condition t f \<Rightarrow>
               (case condition of
                  Const c \<Rightarrow>
                    if c = 1 then
                      Inr (replace_expr m (instr_index if_instr) (Goto t), True)
                    else if c = 0 then
                      Inr (replace_expr m (instr_index if_instr) (Goto f), True)
                    else Inr (m, updated)
                | _ \<Rightarrow> Inr (m, updated))
           | _ \<Rightarrow> Inr (m, updated)))"

fun const_if_scan :: "mlil \<Rightarrow> bool \<Rightarrow> block list \<Rightarrow> error + mlil \<times> bool" where
  "const_if_scan m updated [] = Inr (m, updated)"
| "const_if_scan m updated (bb # bbs) =
     (case const_if_step m updated bb of
        Inl e \<Rightarrow> Inl e
      | Inr (m', updated') \<Rightarrow> const_if_scan m' updated' bbs)"

text \<open>\<^verbatim>\<open>for _ in range(n)\<close>, with the number of rounds that are left.\<close>

fun const_if_loop :: "(op list \<Rightarrow> block list) \<Rightarrow> nat \<Rightarrow> mlil \<Rightarrow> error + mlil" where
  "const_if_loop fin 0 m = Inr m"
| "const_if_loop fin (Suc n) m =
     (case const_if_scan m False (basic_blocks m) of
        Inl e \<Rightarrow> Inl e
      | Inr (m', updated) \<Rightarrow>
          if updated then
            const_if_loop fin n (generate_ssa_form (finalize fin (scan_done m' updated)))
          else Inr (scan_done m' updated))"

definition pass_clear_const_if ::
  "(op list \<Rightarrow> block list) \<Rightarrow> analysis_context \<Rightarrow> error + analysis_context" where
  "pass_clear_const_if fin ctx =
     (case ctx_mlil ctx of
        None \<Rightarrow> Inl AttributeError
      | Some m \<Rightarrow>
          (case const_if_loop fin (length (basic_blocks m)) m of
             Inl e \<Rightarrow> Inl e
           | Inr m' \<Rightarrow> Inr (ctx\<lparr>ctx_mlil := Some (generate_ssa_form (finalize fin m'))\<rparr>)))"



subsection \<open>\<^verbatim>\<open>pass_clear_goto\<close>\<close>

text \<open>
  \<^verbatim>\<open>optimize_goto\<close> follows the jump of \<open>goto_instr\<close>. The recursion of the source
  has no bound of its own and keeps no record of the instructions it has seen: every jump
  on the chain costs one nested call, and the interpreter ends the recursion with
  \<^verbatim>\<open>RecursionError\<close> when the calls nest deeper than its recursion limit allows.
  \<open>depth\<close> is the number of nested calls of the function that the limit leaves room
  for; the passes take it as their parameter \<open>rl\<close>. On the way back every level writes
  one message to the log.
\<close>

fun optimize_goto :: "nat \<Rightarrow> mlil \<Rightarrow> instr \<Rightarrow> error + instr \<times> mlil" where
  "optimize_goto 0 m goto_instr = Inl RecursionError"
| "optimize_goto (Suc depth) m goto_instr =
     (case op_of goto_instr of
        Goto dest \<Rightarrow>
          (case getitem m dest of
             Inl e \<Rightarrow> Inl e
           | Inr target_instr \<Rightarrow>
               if \<not> is_goto target_instr then Inr (target_instr, m)
               else
                 (case optimize_goto depth m target_instr of
                    Inl e \<Rightarrow> Inl e
                  | Inr (final_target, m') \<Rightarrow>
                      Inr (final_target,
                        log_info m' (instr_index goto_instr) (instr_index final_target))))
      | _ \<Rightarrow> Inl AttributeError)"

definition goto_step :: "nat \<Rightarrow> mlil \<Rightarrow> bool \<Rightarrow> block \<Rightarrow> error + mlil \<times> bool" where
  "goto_step rl m updated bb =
     (case bb_last m bb of
        Inl e \<Rightarrow> Inl e
      | Inr goto_instr \<Rightarrow>
          (case op_of goto_instr of
             Goto dest \<Rightarrow>
               (case optimize_goto rl m goto_instr of
                  Inl e \<Rightarrow> Inl e
                | Inr (final_target_instr, m1) \<Rightarrow>
                    if instr_index final_target_instr = dest then Inr (m1, updated)
                    else
                      Inr (replace_expr m1 (instr_index goto_instr)
                             (Goto (instr_index final_target_instr)), True))
           | _ \<Rightarrow> Inr (m, updated)))"

fun goto_scan :: "nat \<Rightarrow> mlil \<Rightarrow> bool \<Rightarrow> block list \<Rightarrow> error + mlil \<times> bool" where
  "goto_scan rl m updated [] = Inr (m, updated)"
| "goto_scan rl m updated (bb # bbs) =
     (case goto_step rl m updated bb of
        Inl e \<Rightarrow> Inl e
      | Inr (m', updated') \<Rightarrow> goto_scan rl m' updated' bbs)"

fun goto_loop :: "nat \<Rightarrow> (op list \<Rightarrow> block list) \<Rightarrow> nat \<Rightarrow> mlil \<Rightarrow> error + mlil" where
  "goto_loop rl fin 0 m = Inr m"
| "goto_loop rl fin (Suc n) m =
     (case goto_scan rl m False (basic_blocks m) of
        Inl e \<Rightarrow> Inl e
      | Inr (m', updated) \<Rightarrow>
          if updated then
            goto_loop rl fin n (generate_ssa_form (finalize fin (scan_done m' updated)))
          else Inr (scan_done m' updated))"

definition pass_clear_goto ::
  "nat \<Rightarrow> (op list \<Rightarrow> block list) \<Rightarrow> analysis_context \<Rightarrow> error + analysis_context" where
  "pass_clear_goto rl fin ctx =
     (case ctx_mlil ctx of
        None \<Rightarrow> Inl AttributeError
      | Some m \<Rightarrow>
          (case goto_loop rl fin (length (basic_blocks m)) m of
             Inl e \<Rightarrow> Inl e
           | Inr m' \<Rightarrow> Inr (ctx\<lparr>ctx_mlil := Some (generate_ssa_form (finalize fin m'))\<rparr>)))"

subsection \<open>\<^verbatim>\<open>pass_clear_if\<close>\<close>

text \<open>
  \<^verbatim>\<open>get_final_target\<close>, with the same room \<open>depth\<close> for nested calls. The argument
  \<^verbatim>\<open>mlil[instr.dest]\<close> of the recursive call is looked up before the call is made.
\<close>

fun get_final_target :: "nat \<Rightarrow> mlil \<Rightarrow> instr \<Rightarrow> error + instr" where
  "get_final_target 0 m instr = Inl RecursionError"
| "get_final_target (Suc depth) m instr =
     (case op_of instr of
        Goto dest \<Rightarrow>
          (case getitem m dest of
             Inl e \<Rightarrow> Inl e
           | Inr target \<Rightarrow> get_final_target depth m target)
      | _ \<Rightarrow> Inr instr)"

text \<open>\<^verbatim>\<open>get_final_target(mlil[i])\<close>\<close>

definition final_target_at :: "nat \<Rightarrow> mlil \<Rightarrow> nat \<Rightarrow> error + instr" where
  "final_target_at rl m i =
     (case getitem m i of Inl e \<Rightarrow> Inl e | Inr x \<Rightarrow> get_final_target rl m x)"

text \<open>A deep copy of an expression is an equal expression.\<close>

definition copy_cond :: "expr \<Rightarrow> expr" where
  "copy_cond c = c"

definition if_step :: "nat \<Rightarrow> mlil \<Rightarrow> bool \<Rightarrow> block \<Rightarrow> error + mlil \<times> bool" where
  "if_step rl m updated bb =
     (case bb_last m bb of
        Inl e \<Rightarrow> Inl e
      | Inr if_instr \<Rightarrow>
          (case op_of if_instr of
             If_op condition t f \<Rightarrow>
               (case final_target_at rl m t of
                  Inl e \<Rightarrow> Inl e
                | Inr true_target \<Rightarrow>
                    (case final_target_at rl m f of
                       Inl e \<Rightarrow> Inl e
                     | Inr false_target \<Rightarrow>
                         if instr_index true_target \<noteq> t \<or> instr_index false_target \<noteq> f then
                           Inr (replace_expr m (instr_index if_instr)
                                  (If_op (copy_cond condition)
                                      (instr_index true_target)
                                      (instr_index false_target)), True)
                         else Inr (m, updated)))
           | _ \<Rightarrow> Inr (m, updated)))"

fun if_scan :: "nat \<Rightarrow> mlil \<Rightarrow> bool \<Rightarrow> block list \<Rightarrow> error + mlil \<times> bool" where
  "if_scan rl m updated [] = Inr (m, updated)"
| "if_scan rl m updated (bb # bbs) =
     (case if_step rl m updated bb of
        Inl e \<Rightarrow> Inl e
      | Inr (m', updated') \<Rightarrow> if_scan rl m' updated' bbs)"

fun if_loop :: "nat \<Rightarrow> (op list \<Rightarrow> block list) \<Rightarrow> nat \<Rightarrow> mlil \<Rightarrow> error + mlil" where
  "if_loop rl fin 0 m = Inr m"
| "if_loop rl fin (Suc n) m =
     (case if_scan rl m False (basic_blocks m) of
        Inl e \<Rightarrow> Inl e
      | Inr (m', updated) \<Rightarrow>
          if updated then
            if_loop rl fin n (generate_ssa_form (finalize fin (scan_done m' updated)))
          else Inr (scan_done m' updated))"

definition pass_clear_if ::
  "nat \<Rightarrow> (op list \<Rightarrow> block list) \<Rightarrow> analysis_context \<Rightarrow> error + analysis_context" where
  "pass_clear_if rl fin ctx =
     (case ctx_mlil ctx of
        None \<Rightarrow> Inl AttributeError
      | Some m \<Rightarrow>
          (case if_loop rl fin (length (basic_blocks m)) m of
             Inl e \<Rightarrow> Inl e
           | Inr m' \<Rightarrow> Inr (ctx\<lparr>ctx_mlil := Some (generate_ssa_form (finalize fin m'))\<rparr>)))"

subsection \<open>\<^verbatim>\<open>merge_block\<close> and \<^verbatim>\<open>pass_merge_block\<close>\<close>

text \<open>
  The loop over \<^verbatim>\<open>pre_instrs\<close>: \<open>label\<close> is the operand of the marked label,
  \<open>first\<close> is \<^verbatim>\<open>instrs[0].instr_index\<close>.
\<close>

fun redirect :: "mlil \<Rightarrow> nat \<Rightarrow> nat \<Rightarrow> instr list \<Rightarrow> error + mlil" where
  "redirect m label first [] = Inr m"
| "redirect m label first (pre_instr # rest) =
     (case op_of pre_instr of
        Goto _ \<Rightarrow> redirect (replace_expr m (instr_index pre_instr) (Goto label)) label first rest
      | If_op condition true_idx false_idx \<Rightarrow>
          if true_idx = first then
            redirect (replace_expr m (instr_index pre_instr)
                        (If_op (copy_cond condition) label false_idx)) label first rest
          else if false_idx = first then
            redirect (replace_expr m (instr_index pre_instr)
                        (If_op (copy_cond condition) true_idx label)) label first rest
          else Inl InvalidIfCondition
      | _ \<Rightarrow> redirect m label first rest)"

definition merge_block :: "mlil \<Rightarrow> instr list \<Rightarrow> instr list \<Rightarrow> error + mlil \<times> bool" where
  "merge_block m xs pre_instrs =
     (if \<not> list_all (\<lambda>instr. is_goto instr \<or> is_if instr) pre_instrs then
        Inr (log_error m pre_instrs, False)
      else if length xs = 0 then Inr (m, False)
      else
        let start_label_oprand = mark_label m;
            m1 = foldl (\<lambda>m x. append_instr m (copy_expr x)) m xs
        in case redirect m1 start_label_oprand (instr_index (hd xs)) pre_instrs of
             Inl e \<Rightarrow> Inl e
           | Inr m2 \<Rightarrow> Inr (m2, True))"

fun mapM_err :: "('a \<Rightarrow> error + 'b) \<Rightarrow> 'a list \<Rightarrow> error + 'b list" where
  "mapM_err f [] = Inr []"
| "mapM_err f (x # xs) =
     (case f x of
        Inl e \<Rightarrow> Inl e
      | Inr y \<Rightarrow> (case mapM_err f xs of Inl e \<Rightarrow> Inl e | Inr ys \<Rightarrow> Inr (y # ys)))"

text \<open>The instructions of a block from position \<open>a\<close> up to, not including, \<open>b\<close>.\<close>

definition bb_range :: "mlil \<Rightarrow> nat \<Rightarrow> nat \<Rightarrow> error + instr list" where
  "bb_range m a b = mapM_err (getitem m) [a..<b]"

text \<open>
  Modelled from the spec: \<^verbatim>\<open>get_basic_block_at\<close> of the access layer gives the
  block that holds an instruction index, or \<^verbatim>\<open>None\<close>.
\<close>

definition get_basic_block_at :: "mlil \<Rightarrow> nat \<Rightarrow> block option" where
  "get_basic_block_at m i = find (\<lambda>bb. bb_start bb \<le> i \<and> i < bb_end bb) (basic_blocks m)"

text \<open>
  The body of the loop of \<^verbatim>\<open>pass_merge_block\<close>, for one block. \<open>inc\<close> stands
  for \<^verbatim>\<open>CFGAnalyzer.MLIL_get_incoming_blocks\<close>, whose code is not among the sources.
  The flag of the result tells whether \<^verbatim>\<open>merge_block\<close> returned \<^verbatim>\<open>True\<close>.
\<close>

definition merge_step ::
  "(mlil \<Rightarrow> nat \<Rightarrow> block list) \<Rightarrow> mlil \<Rightarrow> block \<Rightarrow> error + mlil \<times> bool" where
  "merge_step inc m block =
     (case bb_last m block of
        Inl e \<Rightarrow> Inl e
      | Inr last_instr \<Rightarrow>
          (case op_of last_instr of
             Goto dest \<Rightarrow>
               (case get_basic_block_at m dest of
                  None \<Rightarrow> Inl AttributeError
                | Some next_block \<Rightarrow>
                    if length (inc m (bb_start next_block)) \<noteq> 1 then Inr (m, False)
                    else
                      (case bb_last m next_block of
                         Inl e \<Rightarrow> Inl e
                       | Inr next_last \<Rightarrow>
                           if \<not> (is_goto next_last \<or> is_ret next_last) then Inr (m, False)
                           else
                             (case mapM_err (bb_last m) (inc m (bb_start block)) of
                                Inl e \<Rightarrow> Inl e
                              | Inr pre_instrs \<Rightarrow>
                                  (case bb_range m (bb_start block) (bb_end block - 1) of
                                     Inl e \<Rightarrow> Inl e
                                   | Inr body \<Rightarrow>
                                       (case bb_range m (bb_start next_block) (bb_end next_block) of
                                          Inl e \<Rightarrow> Inl e
                                        | Inr next_instrs \<Rightarrow>
                                            merge_block m (body @ next_instrs) pre_instrs)))))
           | _ \<Rightarrow> Inr (m, False)))"

text \<open>The scan over the blocks; it ends at the first merge that succeeds.\<close>

fun merge_scan ::
  "(mlil \<Rightarrow> nat \<Rightarrow> block list) \<Rightarrow> mlil \<Rightarrow> block list \<Rightarrow> error + mlil \<times> bool" where
  "merge_scan inc m [] = Inr (m, False)"
| "merge_scan inc m (block # rest) =
     (case merge_step inc m block of
        Inl e \<Rightarrow> Inl e
      | Inr (m', merged) \<Rightarrow>
          if merged then Inr (m', True) else merge_scan inc m' rest)"

fun merge_loop ::
  "(op list \<Rightarrow> block list) \<Rightarrow> (mlil \<Rightarrow> nat \<Rightarrow> block list) \<Rightarrow> nat \<Rightarrow> mlil \<Rightarrow> error + mlil" where
  "merge_loop fin inc 0 m = Inr m"
| "merge_loop fin inc (Suc n) m =
     (case merge_scan inc m (basic_blocks m) of
        Inl e \<Rightarrow> Inl e
      | Inr (m', updated) \<Rightarrow>
          if updated then
            merge_loop fin inc n (generate_ssa_form (finalize fin (scan_done m' updated)))
          else Inr (scan_done m' updated))"

definition pass_merge_block ::
  "(op list \<Rightarrow> block list) \<Rightarrow> (mlil \<Rightarrow> nat \<Rightarrow> block list) \<Rightarrow>
   analysis_context \<Rightarrow> error + analysis_context" where
  "pass_merge_block fin inc ctx =
     (case ctx_mlil ctx of
        None \<Rightarrow> Inr ctx
      | Some m \<Rightarrow>
          (case merge_loop fin inc (length (basic_blocks m) * 2) m of
             Inl e \<Rightarrow> Inl e
           | Inr m' \<Rightarrow> Inr (ctx\<lparr>ctx_mlil := Some (generate_ssa_form (finalize fin m'))\<rparr>)))"

subsection \<open>\<^verbatim>\<open>pass_swap_if\<close>\<close>

fun is_const :: "expr \<Rightarrow> bool" where
  "is_const (Const _) = True"
| "is_const _ = False"

fun is_var :: "expr \<Rightarrow> bool" where
  "is_var (Var _) = True"
| "is_var _ = False"

fun traverse_find_if :: "instr \<Rightarrow> instr option" where
  "traverse_find_if (Instr i (If_op (BinOp k l r) t f)) =
     (if is_const l \<and> is_var r then Some (Instr i (If_op (BinOp k l r) t f)) else None)"
| "traverse_find_if _ = None"

text \<open>
  The pass looks the branches up and does nothing with them: the body of its loop is
  \<^verbatim>\<open>pass\<close>.
\<close>

definition pass_swap_if :: "analysis_context \<Rightarrow> error + analysis_context" where
  "pass_swap_if ctx =
     (case ctx_function_mlil ctx of
        None \<Rightarrow> Inr ctx
      | Some m \<Rightarrow>
          let if_instrs = List.map_filter traverse_find_if
                            (map (\<lambda>i. Instr i (instrs m ! i)) [0..<length (instrs m)])
          in Inr (foldl (\<lambda>c if_instr. c) ctx if_instrs))"

subsection \<open>\<^verbatim>\<open>pass_clear\<close>\<close>

definition pass_clear ::
  "nat \<Rightarrow> (op list \<Rightarrow> block list) \<Rightarrow> (mlil \<Rightarrow> nat \<Rightarrow> block list) \<Rightarrow>
   analysis_context \<Rightarrow> error + analysis_context" where
  "pass_clear rl fin inc ctx =
     (case pass_clear_const_if fin ctx of
        Inl e \<Rightarrow> Inl e
      | Inr ctx1 \<Rightarrow>
          (case pass_clear_goto rl fin ctx1 of
             Inl e \<Rightarrow> Inl e
           | Inr ctx2 \<Rightarrow>
               (case pass_clear_if rl fin ctx2 of
                  Inl e \<Rightarrow> Inl e
                | Inr ctx3 \<Rightarrow> pass_merge_block fin inc ctx3)))"

subsection \<open>A block derivation and a predecessor analyzer\<close>

text \<open>
  Modelled from the spec: a re-derivation of the block boundaries for \<^verbatim>\<open>finalize\<close>,
  used where a concrete one is needed. A block starts at index 0, at every target of a
  jump or branch, and after every jump, branch and return; every instruction belongs to
  one block.
\<close>

fun is_terminator :: "op \<Rightarrow> bool" where
  "is_terminator (Other _) = False"
| "is_terminator _ = True"

fun targets :: "op \<Rightarrow> nat list" where
  "targets (Goto d) = [d]"
| "targets (If_op _ t f) = [t, f]"
| "targets _ = []"

definition is_leader :: "op list \<Rightarrow> nat \<Rightarrow> bool" where
  "is_leader ops i \<longleftrightarrow>
     i = 0 \<or> is_terminator (ops ! (i - 1)) \<or> i \<in> set (concat (map targets ops))"

definition leader_blocks :: "op list \<Rightarrow> block list" where
  "leader_blocks ops =
     (let ls = filter (is_leader ops) [0..<length ops]
      in map (\<lambda>(a, b). Block a b) (zip ls (tl ls @ [length ops])))"

text \<open>
  Modelled from the spec: \<^verbatim>\<open>CFGAnalyzer.MLIL_get_incoming_blocks\<close> is part of the
  repository but not among the sources. Given the entry index of a block, it returns the
  blocks whose terminator can transfer control to it.
\<close>

definition MLIL_get_incoming_blocks :: "mlil \<Rightarrow> nat \<Rightarrow> block list" where
  "MLIL_get_incoming_blocks m start =
     filter (\<lambda>bb. case bb_last m bb of
                    Inl _ \<Rightarrow> False
                  | Inr x \<Rightarrow> start \<in> set (targets (op_of x)))
            (basic_blocks m)"

section \<open>Auxiliary definitions\<close>

text \<open>What folding does to one operation.\<close>

fun fold_op :: "op \<Rightarrow> op" where
  "fold_op (If_op (Const c) t f) = (if c = 1 then Goto t else if c = 0 then Goto f else If_op (Const c) t f)"
| "fold_op x = x"

text \<open>Blocks as the access layer hands them out: non-empty and inside the function.\<close>

definition wf_block :: "op list \<Rightarrow> block \<Rightarrow> bool" where
  "wf_block ops bb \<longleftrightarrow> bb_start bb < bb_end bb \<and> bb_end bb \<le> length ops"

definition wf_fin :: "(op list \<Rightarrow> block list) \<Rightarrow> bool" where
  "wf_fin fin \<longleftrightarrow> (\<forall>ops. \<forall>bb \<in> set (fin ops). wf_block ops bb)"

definition term_idx :: "block \<Rightarrow> nat" where
  "term_idx bb = bb_end bb - 1"


text \<open>A function with one block for each case of the constant-branch folder.\<close>

definition fold_example :: mlil where
  "fold_example =
     \<lparr>instrs = [If_op (Const 1) 1 2, If_op (Const 0) 3 2, If_op (Const 5) 3 4, If_op (Var 0) 4 4, Ret 0],
      basic_blocks = [Block 0 1, Block 1 2, Block 2 3, Block 3 4, Block 4 5],
      trace = []\<rparr>"

text \<open>
  A merge candidate as \<^verbatim>\<open>pass_merge_block\<close> finds it: block \<open>b\<close> ends in a jump
  into block \<open>c\<close>, \<open>c\<close> has one incoming block and ends in a jump or a return.
\<close>

definition merge_candidate ::
  "(mlil \<Rightarrow> nat \<Rightarrow> block list) \<Rightarrow> mlil \<Rightarrow> block \<Rightarrow> block \<Rightarrow> bool" where
  "merge_candidate inc m b c \<longleftrightarrow>
     wf_block (instrs m) b \<and> wf_block (instrs m) c \<and>
     (case instrs m ! (bb_end b - 1) of
        Goto d \<Rightarrow> get_basic_block_at m d = Some c
      | _ \<Rightarrow> False) \<and>
     length (inc m (bb_start c)) = 1 \<and>
     (case instrs m ! (bb_end c - 1) of Goto _ \<Rightarrow> True | Ret _ \<Rightarrow> True | _ \<Rightarrow> False)"

text \<open>
  A predecessor analyzer that also counts the block lying right before a block, whatever
  its last instruction is.
\<close>

definition incoming_or_adjacent :: "mlil \<Rightarrow> nat \<Rightarrow> block list" where
  "incoming_or_adjacent m start =
     filter (\<lambda>bb. bb_end bb = start \<or> bb \<in> set (MLIL_get_incoming_blocks m start))
            (basic_blocks m)"

text \<open>A returning block, then a block that only jumps on to a returning block.\<close>

definition adjacent_example :: mlil where
  "adjacent_example =
     \<lparr>instrs = [Other 0, Ret 0, Other 1, Goto 4, Ret 1],
      basic_blocks = [Block 0 2, Block 2 4, Block 4 5],
      trace = []\<rparr>"

text \<open>A branch into a block that consists of a jump only.\<close>

definition single_jump_example :: mlil where
  "single_jump_example =
     \<lparr>instrs = [If_op (Var 0) 1 3, Goto 2, Ret 0, Ret 1],
      basic_blocks = [Block 0 1, Block 1 2, Block 2 3, Block 3 4],
      trace = []\<rparr>"

text \<open>An entry block that jumps to the returning block after it.\<close>

definition entry_jump_example :: mlil where
  "entry_jump_example =
     \<lparr>instrs = [Other 0, Goto 2, Ret 0],
      basic_blocks = [Block 0 2, Block 2 3],
      trace = []\<rparr>"

text \<open>Two pairs of blocks that can be merged.\<close>

definition two_pairs_example :: mlil where
  "two_pairs_example =
     \<lparr>instrs = [If_op (Var 0) 1 4, Other 0, Goto 3, Ret 0, Other 1, Goto 6, Ret 1],
      basic_blocks = [Block 0 1, Block 1 3, Block 3 4, Block 4 6, Block 6 7],
      trace = []\<rparr>"

text \<open>The simplification cycle, run twice.\<close>

definition pass_clear_twice ::
  "nat \<Rightarrow> (op list \<Rightarrow> block list) \<Rightarrow> (mlil \<Rightarrow> nat \<Rightarrow> block list) \<Rightarrow>
   analysis_context \<Rightarrow> error + analysis_context" where
  "pass_clear_twice rl fin inc ctx =
     (case pass_clear rl fin inc ctx of
        Inr ctx' \<Rightarrow> pass_clear rl fin inc ctx'
      | Inl e \<Rightarrow> Inl e)"

text \<open>The instructions of the function a pass has returned.\<close>

definition instrs_of :: "error + analysis_context \<Rightarrow> op list option" where
  "instrs_of r =
     (case r of
        Inr ctx \<Rightarrow> map_option instrs (ctx_mlil ctx)
      | Inl e \<Rightarrow> None)"

text \<open>
  Jump chains in the words of the specification: index \<open>i\<close> holds an unconditional
  jump; \<open>follow ops k d\<close> is where \<open>k\<close> steps along the jumps lead from \<open>d\<close>, staying
  at the first index that holds no jump (the sink) or lies outside the function.
\<close>

definition jump_at :: "op list \<Rightarrow> nat \<Rightarrow> bool" where
  "jump_at ops i \<longleftrightarrow> i < length ops \<and> (case ops ! i of Goto _ \<Rightarrow> True | _ \<Rightarrow> False)"

fun follow :: "op list \<Rightarrow> nat \<Rightarrow> nat \<Rightarrow> nat" where
  "follow ops 0 d = d"
| "follow ops (Suc k) d =
     (if d < length ops then (case ops ! d of Goto d' \<Rightarrow> follow ops k d' | _ \<Rightarrow> d) else d)"


text \<open>A chain of two jumps to a return, a branch into a jump, a cycle of two jumps.\<close>

definition chain_example :: mlil where
  "chain_example =
     \<lparr>instrs = [Goto 1, Goto 2, Ret 0],
      basic_blocks = [Block 0 1, Block 1 2, Block 2 3],
      trace = []\<rparr>"

definition branch_example :: mlil where
  "branch_example =
     \<lparr>instrs = [If_op (Var 0) 1 2, Goto 3, Ret 0, Ret 1],
      basic_blocks = [Block 0 1, Block 1 2, Block 2 3, Block 3 4],
      trace = []\<rparr>"

definition cycle_example :: mlil where
  "cycle_example =
     \<lparr>instrs = [If_op (Var 0) 1 2, Goto 2, Goto 1],
      basic_blocks = [Block 0 1, Block 1 2, Block 2 3],
      trace = []\<rparr>"

text \<open>
  The shape of what a pass leaves in the trace, messages to the log aside: at most \<open>n\<close>
  scans; a scan that has updated is followed by \<^verbatim>\<open>finalize\<close> and
  \<^verbatim>\<open>generate_ssa_form\<close> and then by the next round; a scan that has not updated is the
  last one; without such a scan the loop ends when no round is left; in the end come the
  closing \<^verbatim>\<open>finalize\<close> and \<^verbatim>\<open>generate_ssa_form\<close>.
\<close>

fun is_log :: "event \<Rightarrow> bool" where
  "is_log (LogInfo _ _) = True"
| "is_log (LogError _) = True"
| "is_log _ = False"

definition calls :: "event list \<Rightarrow> event list" where
  "calls es = filter (\<lambda>e. \<not> is_log e) es"

fun rounds :: "nat \<Rightarrow> event list \<Rightarrow> bool" where
  "rounds 0 es = (es = [Finalize, GenerateSSA])"
| "rounds (Suc n) es =
     (es = [ScanDone False, Finalize, GenerateSSA] \<or>
      take 3 es = [ScanDone True, Finalize, GenerateSSA] \<and> rounds n (drop 3 es))"

definition bounded_rounds :: "nat \<Rightarrow> mlil \<Rightarrow> analysis_context \<Rightarrow> bool" where
  "bounded_rounds n m ctx' =
     (case ctx_mlil ctx' of
        None \<Rightarrow> False
      | Some m' \<Rightarrow>
          take (length (trace m)) (trace m') = trace m \<and>
          rounds n (calls (drop (length (trace m)) (trace m'))))"

text \<open>
  The instructions \<open>ops\<close> come from \<open>ops0\<close> by compressing jumps: an instruction is
  what it was, or it was a jump and is now a jump to the sink of its chain in \<open>ops0\<close>.
\<close>

definition compressed :: "op list \<Rightarrow> op list \<Rightarrow> bool" where
  "compressed ops0 ops \<longleftrightarrow>
     length ops = length ops0 \<and>
     (\<forall>j < length ops0.
        ops ! j = ops0 ! j \<or>
        (\<exists>d k. ops0 ! j = Goto d \<and> ops ! j = Goto (follow ops0 k d) \<and>
           follow ops0 k d \<noteq> d \<and> \<not> jump_at ops0 (follow ops0 k d) \<and>
           follow ops0 k d < length ops0))"

text \<open>The instruction at \<open>i\<close>, if it is a jump, points at an instruction that is no jump.\<close>

definition settled :: "op list \<Rightarrow> nat \<Rightarrow> bool" where
  "settled ops i \<longleftrightarrow> (\<forall>s. ops ! i = Goto s \<longrightarrow> s < length ops \<and> \<not> jump_at ops s)"

text \<open>
  Every target of a jump or branch lies inside the function, and the chain of jumps from
  it reaches an instruction that is no jump in fewer than \<open>rl\<close> steps.
\<close>

definition chains_resolve :: "nat \<Rightarrow> op list \<Rightarrow> bool" where
  "chains_resolve rl ops \<longleftrightarrow>
     0 < rl \<and>
     list_all (\<lambda>x. list_all (\<lambda>d. d < length ops \<and> \<not> jump_at ops (follow ops (rl - 1) d))
                           (targets x)) ops"

text \<open>
  The instructions \<open>ops\<close> come from \<open>ops0\<close> by redirecting branch arms: an instruction
  is what it was, or it was a branch and is now the branch with the same condition whose
  arms are the sinks of the chains of its arms in \<open>ops0\<close>.
\<close>

definition redirected :: "op list \<Rightarrow> op list \<Rightarrow> bool" where
  "redirected ops0 ops \<longleftrightarrow>
     length ops = length ops0 \<and>
     (\<forall>j < length ops0.
        ops ! j = ops0 ! j \<or>
        (\<exists>c t f kt kf. ops0 ! j = If_op c t f \<and>
           ops ! j = If_op c (follow ops0 kt t) (follow ops0 kf f) \<and>
           (follow ops0 kt t \<noteq> t \<or> follow ops0 kf f \<noteq> f) \<and>
           \<not> jump_at ops0 (follow ops0 kt t) \<and> \<not> jump_at ops0 (follow ops0 kf f) \<and>
           follow ops0 kt t < length ops0 \<and> follow ops0 kf f < length ops0))"

text \<open>The instruction at \<open>i\<close>, if it is a branch, has arms that are no jumps.\<close>

definition settled_if :: "op list \<Rightarrow> nat \<Rightarrow> bool" where
  "settled_if ops i \<longleftrightarrow>
     (\<forall>c t f. ops ! i = If_op c t f \<longrightarrow>
        t < length ops \<and> f < length ops \<and> \<not> jump_at ops t \<and> \<not> jump_at ops f)"

section \<open>Properties\<close>

subsection \<open>Folding constant branches\<close>

lemma fold_op_idem: "fold_op (fold_op x) = fold_op x"
  by (induction x rule: fold_op.induct) auto

lemma bb_last_wf:
  "wf_block (instrs m) bb \<Longrightarrow>
   bb_last m bb = Inr (Instr (bb_end bb - 1) (instrs m ! (bb_end bb - 1)))"
  by (auto simp: wf_block_def bb_last_def getitem_def)

lemma bb_last_Inr:
  "bb_last m bb = Inr x \<Longrightarrow>
   x = Instr (bb_end bb - 1) (instrs m ! (bb_end bb - 1)) \<and> bb_end bb - 1 < length (instrs m)"
  by (auto simp: bb_last_def getitem_def split: if_splits)

lemma const_if_step_fold:
  "bb_last m bb = Inr (Instr i x) \<Longrightarrow>
   const_if_step m u bb =
     Inr (if fold_op x \<noteq> x then (replace_expr m i (fold_op x), True) else (m, u))"
  by (cases x rule: fold_op.cases) (simp_all add: const_if_step_def)

lemma const_if_step_Inr:
  assumes "const_if_step m u bb = Inr (m', u')"
  shows "instrs m' = (instrs m)[bb_end bb - 1 := fold_op (instrs m ! (bb_end bb - 1))]"
    and "basic_blocks m' = basic_blocks m" and "trace m' = trace m"
    and "bb_end bb - 1 < length (instrs m)"
    and "u' = (u \<or> instrs m' \<noteq> instrs m)"
proof -
  let ?i = "bb_end bb - 1"
  let ?x = "instrs m ! ?i"
  from assms obtain y where y: "bb_last m bb = Inr y"
    by (auto simp: const_if_step_def split: sum.splits)
  from bb_last_Inr [OF y] have x: "bb_last m bb = Inr (Instr ?i ?x)"
    and lt: "?i < length (instrs m)" using y by simp_all
  show "?i < length (instrs m)" by (rule lt)
  have res: "(m', u') = (if fold_op ?x \<noteq> ?x then (replace_expr m ?i (fold_op ?x), True) else (m, u))"
    using assms const_if_step_fold [OF x, of u] by simp
  show "instrs m' = (instrs m)[?i := fold_op ?x]"
    using res by (cases "fold_op ?x = ?x") (simp_all add: replace_expr_def)
  show "basic_blocks m' = basic_blocks m"
    using res by (cases "fold_op ?x = ?x") (simp_all add: replace_expr_def)
  show "trace m' = trace m"
    using res by (cases "fold_op ?x = ?x") (simp_all add: replace_expr_def)
  show "u' = (u \<or> instrs m' \<noteq> instrs m)"
    using res lt by (cases "fold_op ?x = ?x") (simp_all add: replace_expr_def list_update_same_conv)
qed

lemma const_if_step_wf:
  "wf_block (instrs m) bb \<Longrightarrow> \<exists>r. const_if_step m u bb = Inr r"
  by (auto simp: const_if_step_def bb_last_wf split: op.splits expr.splits)

text \<open>
  One scan: the terminators of the scanned blocks are folded, everything else stays.
\<close>

lemma const_if_scan_Inr:
  "const_if_scan m u bbs = Inr (m', u') \<Longrightarrow>
     length (instrs m') = length (instrs m) \<and>
     (\<forall>j < length (instrs m).
        instrs m' ! j = (if j \<in> term_idx ` set bbs then fold_op (instrs m ! j) else instrs m ! j)) \<and>
     basic_blocks m' = basic_blocks m \<and> trace m' = trace m \<and>
     u' = (u \<or> instrs m' \<noteq> instrs m) \<and>
     (\<forall>bb \<in> set bbs. term_idx bb < length (instrs m))"
proof (induction bbs arbitrary: m u)
  case Nil
  then show ?case by simp
next
  case (Cons bb bbs)
  from Cons.prems obtain m1 u1 where
    step: "const_if_step m u bb = Inr (m1, u1)" and rest: "const_if_scan m1 u1 bbs = Inr (m', u')"
    by (auto split: sum.splits)
  note s = const_if_step_Inr [OF step]
  note r = Cons.IH [OF rest]
  have len: "length (instrs m1) = length (instrs m)" using s(1) by simp
  have nth: "instrs m' ! j =
      (if j \<in> term_idx ` set (bb # bbs) then fold_op (instrs m ! j) else instrs m ! j)"
    if "j < length (instrs m)" for j
  proof -
    from r that len have
      "instrs m' ! j = (if j \<in> term_idx ` set bbs then fold_op (instrs m1 ! j) else instrs m1 ! j)"
      by simp
    moreover have "instrs m1 ! j = (if j = term_idx bb then fold_op (instrs m ! j) else instrs m ! j)"
      using s(1) that by (simp add: term_idx_def nth_list_update)
    ultimately show ?thesis by (auto simp: fold_op_idem)
  qed
  have upd: "u' = (u \<or> instrs m' \<noteq> instrs m)"
  proof (cases "instrs m1 = instrs m")
    case True
    with r s(5) show ?thesis by simp
  next
    case False
    then have u1: "u1" using s(5) by simp
    then have "u'" using r by simp
    moreover have "instrs m' \<noteq> instrs m"
    proof
      assume eq: "instrs m' = instrs m"
      let ?i = "term_idx bb"
      have i: "?i < length (instrs m)" using s(4) by (simp add: term_idx_def)
      from False s(1) have ne: "fold_op (instrs m ! ?i) \<noteq> instrs m ! ?i"
        by (auto simp: term_idx_def list_update_same_conv)
      from nth [OF i] have "instrs m' ! ?i = fold_op (instrs m ! ?i)" by simp
      with eq ne show False by simp
    qed
    ultimately show ?thesis by simp
  qed
  from len r nth upd s show ?case by (simp add: term_idx_def)
qed

lemma const_if_scan_wf:
  "\<forall>bb \<in> set bbs. wf_block (instrs m) bb \<Longrightarrow> \<exists>r. const_if_scan m u bbs = Inr r"
proof (induction bbs arbitrary: m u)
  case Nil
  then show ?case by simp
next
  case (Cons bb bbs)
  then obtain m1 u1 where step: "const_if_step m u bb = Inr (m1, u1)"
    using const_if_step_wf [of m bb u] by auto
  have "length (instrs m1) = length (instrs m)"
    using const_if_step_Inr(1) [OF step] by simp
  with Cons.prems have "\<forall>bb \<in> set bbs. wf_block (instrs m1) bb"
    by (simp add: wf_block_def)
  from Cons.IH [OF this] step show ?case by simp
qed


lemma zip_next_bounds:
  "sorted_wrt (<) ls \<Longrightarrow> \<forall>x \<in> set ls. x < n \<Longrightarrow>
   \<forall>(a, b) \<in> set (zip ls (tl ls @ [n])). a < b \<and> b \<le> (n::nat)"
proof (induction ls)
  case Nil
  then show ?case by simp
next
  case (Cons x xs)
  show ?case
  proof (cases xs)
    case Nil
    with Cons.prems show ?thesis by simp
  next
    case (Cons y ys)
    with Cons.IH Cons.prems show ?thesis by auto
  qed
qed

lemma leader_blocks_wf: "wf_fin leader_blocks"
proof -
  have "wf_block ops bb" if "bb \<in> set (leader_blocks ops)" for ops bb
  proof -
    let ?ls = "filter (is_leader ops) [0..<length ops]"
    have "sorted_wrt (<) ?ls" by (rule sorted_wrt_filter) simp
    moreover have "\<forall>x \<in> set ?ls. x < length ops" by simp
    ultimately have "\<forall>(a, b) \<in> set (zip ?ls (tl ?ls @ [length ops])). a < b \<and> b \<le> length ops"
      by (rule zip_next_bounds)
    with that show ?thesis
      by (auto simp: leader_blocks_def Let_def wf_block_def)
  qed
  then show ?thesis by (simp add: wf_fin_def)
qed


lemma const_if_loop_wf:
  "wf_fin fin \<Longrightarrow> \<forall>bb \<in> set (basic_blocks m). wf_block (instrs m) bb \<Longrightarrow>
   \<exists>m'. const_if_loop fin n m = Inr m'"
proof (induction n arbitrary: m)
  case 0
  then show ?case by simp
next
  case (Suc n)
  from const_if_scan_wf [OF Suc.prems(2)] obtain m1 u where
    scan: "const_if_scan m False (basic_blocks m) = Inr (m1, u)" by fastforce
  let ?m2 = "generate_ssa_form (finalize fin (scan_done m1 True))"
  have "\<forall>bb \<in> set (basic_blocks ?m2). wf_block (instrs ?m2) bb"
    using Suc.prems(1) by (simp add: wf_fin_def generate_ssa_form_def finalize_def scan_done_def)
  from Suc.IH [OF Suc.prems(1) this] scan show ?case by (cases u) simp_all
qed





subsection \<open>Absent functions\<close>

text \<open>
  C10. When the function of the analysis context is absent, \<^verbatim>\<open>pass_merge_block\<close> and
  \<^verbatim>\<open>pass_swap_if\<close> return at once: no error, the context as it was. The other three
  passes have no such guard: they fail on the first access to the absent function.
  \<^verbatim>\<open>pass_merge_block\<close> and the three passes read \<^verbatim>\<open>analysis_context.mlil\<close>,
  \<^verbatim>\<open>pass_swap_if\<close> reads \<^verbatim>\<open>analysis_context.function.mlil\<close>.
\<close>

theorem absent_function_guards:
  "(ctx_mlil ctx = None \<longrightarrow>
      pass_merge_block fin inc ctx = Inr ctx \<and>
      pass_clear_const_if fin ctx = Inl AttributeError \<and>
      pass_clear_goto rl fin ctx = Inl AttributeError \<and>
      pass_clear_if rl fin ctx = Inl AttributeError) \<and>
   (ctx_function_mlil ctx = None \<longrightarrow> pass_swap_if ctx = Inr ctx)"
  by (simp add: pass_merge_block_def pass_clear_const_if_def pass_clear_goto_def
      pass_clear_if_def pass_swap_if_def)

theorem absent_function_guards_witness:
  "pass_merge_block leader_blocks MLIL_get_incoming_blocks
     \<lparr>ctx_mlil = None, ctx_function_mlil = None\<rparr> = Inr \<lparr>ctx_mlil = None, ctx_function_mlil = None\<rparr> \<and>
   pass_swap_if \<lparr>ctx_mlil = None, ctx_function_mlil = None\<rparr> =
     Inr \<lparr>ctx_mlil = None, ctx_function_mlil = None\<rparr> \<and>
   pass_clear_const_if leader_blocks \<lparr>ctx_mlil = None, ctx_function_mlil = None\<rparr> =
     Inl AttributeError \<and>
   pass_clear_goto 1000 leader_blocks \<lparr>ctx_mlil = None, ctx_function_mlil = None\<rparr> =
     Inl AttributeError \<and>
   pass_clear_if 1000 leader_blocks \<lparr>ctx_mlil = None, ctx_function_mlil = None\<rparr> =
     Inl AttributeError"
  using absent_function_guards
    [of "\<lparr>ctx_mlil = None, ctx_function_mlil = None\<rparr>" leader_blocks MLIL_get_incoming_blocks 1000]
  by simp

subsection \<open>Merging blocks\<close>

lemma mapM_err_Inr:
  "(\<forall>x \<in> set xs. \<exists>y. f x = Inr y) \<Longrightarrow> \<exists>ys. mapM_err f xs = Inr ys"
  by (induction xs) auto

lemma bb_range_wf: "b \<le> length (instrs m) \<Longrightarrow> \<exists>xs. bb_range m a b = Inr xs"
  unfolding bb_range_def by (rule mapM_err_Inr) (simp add: getitem_def)

lemma merge_block_foreign:
  "\<exists>p \<in> set ps. \<not> is_goto p \<and> \<not> is_if p \<Longrightarrow>
   merge_block m xs ps = Inr (log_error m ps, False)"
  by (auto simp: merge_block_def list_all_iff)

lemma merge_block_False:
  "merge_block m xs ps = Inr (m', False) \<Longrightarrow>
   instrs m' = instrs m \<and> basic_blocks m' = basic_blocks m"
  by (auto simp: merge_block_def log_error_def Let_def split: if_splits sum.splits)

lemma merge_step_cases:
  assumes "merge_step inc m b = Inr (m', merged)"
  shows "(m' = m \<and> \<not> merged) \<or> (\<exists>xs ps. merge_block m xs ps = Inr (m', merged))"
  using assms unfolding merge_step_def
  by (auto split: sum.splits op.splits option.splits if_splits)

lemma merge_step_False:
  "merge_step inc m b = Inr (m', False) \<Longrightarrow>
   instrs m' = instrs m \<and> basic_blocks m' = basic_blocks m"
  using merge_step_cases [of inc m b m' False] merge_block_False by blast

lemma merge_step_True:
  "merge_step inc m b = Inr (m', True) \<Longrightarrow> \<exists>xs ps. merge_block m xs ps = Inr (m', True)"
  using merge_step_cases [of inc m b m' True] by blast

lemma merge_scan_append:
  "merge_scan inc m pre = Inr (m0, False) \<Longrightarrow>
   merge_scan inc m (pre @ rest) = merge_scan inc m0 rest"
  by (induction pre arbitrary: m) (auto split: sum.splits if_splits)

text \<open>
  C3. Let (b, c) be a merge candidate, and let one of the blocks that the predecessor
  analyzer returns for b end in an instruction that is neither a jump nor a branch. Then
  \<^verbatim>\<open>merge_block\<close> returns \<^verbatim>\<open>False\<close> after one error message and leaves the
  instructions and blocks as they were (nothing is appended or replaced), and the scan
  goes on with the blocks after b.
\<close>

theorem merge_abandoned_on_foreign_predecessor:
  assumes "merge_candidate inc m b c"
    and "mapM_err (bb_last m) (inc m (bb_start b)) = Inr pre_instrs"
    and "\<exists>p \<in> set pre_instrs. \<not> is_goto p \<and> \<not> is_if p"
  shows "merge_block m xs pre_instrs = Inr (log_error m pre_instrs, False) \<and>
     merge_step inc m b = Inr (log_error m pre_instrs, False) \<and>
     instrs (log_error m pre_instrs) = instrs m \<and>
     basic_blocks (log_error m pre_instrs) = basic_blocks m \<and>
     trace (log_error m pre_instrs) = trace m @ [LogError pre_instrs] \<and>
     merge_scan inc m (b # rest) = merge_scan inc (log_error m pre_instrs) rest"
proof -
  have mb: "merge_block m ys pre_instrs = Inr (log_error m pre_instrs, False)" for ys
    by (rule merge_block_foreign [OF assms(3)])
  from assms(1) have wb: "wf_block (instrs m) b" and wc: "wf_block (instrs m) c"
    by (simp_all add: merge_candidate_def)
  from assms(1) obtain d where d: "instrs m ! (bb_end b - 1) = Goto d"
    and c: "get_basic_block_at m d = Some c"
    by (auto simp: merge_candidate_def split: op.splits)
  from assms(1) have one: "length (inc m (bb_start c)) = 1"
    by (simp add: merge_candidate_def)
  from assms(1) have last_c: "is_goto (Instr (bb_end c - 1) (instrs m ! (bb_end c - 1))) \<or>
      is_ret (Instr (bb_end c - 1) (instrs m ! (bb_end c - 1)))"
    by (auto simp: merge_candidate_def split: op.splits)
  have "bb_end b - 1 \<le> length (instrs m)" using wb unfolding wf_block_def by arith
  then obtain body where body: "bb_range m (bb_start b) (bb_end b - 1) = Inr body"
    using bb_range_wf by blast
  have "bb_end c \<le> length (instrs m)" using wc by (simp add: wf_block_def)
  then obtain nxt where nxt: "bb_range m (bb_start c) (bb_end c) = Inr nxt"
    using bb_range_wf by blast
  have step: "merge_step inc m b = Inr (log_error m pre_instrs, False)"
    using d c one last_c assms(2) body nxt mb
    by (simp add: merge_step_def bb_last_wf [OF wb] bb_last_wf [OF wc])
  show ?thesis
    using mb step by (simp add: log_error_def)
qed

theorem merge_abandoned_on_foreign_predecessor_witness:
  "merge_step incoming_or_adjacent adjacent_example (Block 2 4) =
     Inr (log_error adjacent_example [Instr 1 (Ret 0)], False) \<and>
   instrs (log_error adjacent_example [Instr 1 (Ret 0)]) = instrs adjacent_example \<and>
   merge_scan incoming_or_adjacent adjacent_example [Block 2 4, Block 4 5] =
     merge_scan incoming_or_adjacent (log_error adjacent_example [Instr 1 (Ret 0)]) [Block 4 5]"
proof -
  have h1: "merge_candidate incoming_or_adjacent adjacent_example (Block 2 4) (Block 4 5)"
    by code_simp
  have h2: "mapM_err (bb_last adjacent_example)
      (incoming_or_adjacent adjacent_example (bb_start (Block 2 4))) = Inr [Instr 1 (Ret 0)]"
    by code_simp
  have h3: "\<exists>p \<in> set [Instr 1 (Ret 0)]. \<not> is_goto p \<and> \<not> is_if p" by simp
  from merge_abandoned_on_foreign_predecessor [OF h1 h2 h3, of "[]" "[Block 4 5]"]
  show ?thesis by simp
qed

lemma merge_scan_one_merge:
  assumes "merge_scan inc m bs = Inr (m', updated)"
  shows "if updated then
           (\<exists>pre b post m0 xs ps.
              bs = pre @ b # post \<and>
              merge_scan inc m pre = Inr (m0, False) \<and>
              instrs m0 = instrs m \<and> basic_blocks m0 = basic_blocks m \<and>
              merge_block m0 xs ps = Inr (m', True) \<and>
              (\<forall>post'. merge_scan inc m (pre @ b # post') = Inr (m', True)))
         else instrs m' = instrs m \<and> basic_blocks m' = basic_blocks m"
  using assms
proof (induction bs arbitrary: m)
  case Nil
  then show ?case by auto
next
  case (Cons b bs)
  from Cons.prems obtain m1 merged where step: "merge_step inc m b = Inr (m1, merged)"
    by (auto split: sum.splits)
  show ?case
  proof (cases merged)
    case True
    with Cons.prems step have eq: "m' = m1" "updated" by simp_all
    from step True have "merge_step inc m b = Inr (m1, True)" by simp
    from merge_step_True [OF this] obtain xs ps where
      mb: "merge_block m xs ps = Inr (m1, True)" by blast
    have "b # bs = [] @ b # bs \<and> merge_scan inc m [] = Inr (m, False) \<and>
        instrs m = instrs m \<and> basic_blocks m = basic_blocks m \<and>
        merge_block m xs ps = Inr (m', True) \<and>
        (\<forall>post'. merge_scan inc m ([] @ b # post') = Inr (m', True))"
      using step True mb eq by simp
    then show ?thesis using eq(2) by metis
  next
    case False
    with Cons.prems step have rest: "merge_scan inc m1 bs = Inr (m', updated)" by simp
    from step False have "merge_step inc m b = Inr (m1, False)" by simp
    from merge_step_False [OF this]
    have same: "instrs m1 = instrs m" "basic_blocks m1 = basic_blocks m" by simp_all
    have head: "merge_scan inc m [b] = Inr (m1, False)" using step False by simp
    show ?thesis
    proof (cases updated)
      case False
      with Cons.IH [OF rest] same show ?thesis by simp
    next
      case True
      with Cons.IH [OF rest] obtain pre c post m0 xs ps where
        bs: "bs = pre @ c # post" and pre: "merge_scan inc m1 pre = Inr (m0, False)"
        and m0: "instrs m0 = instrs m1" "basic_blocks m0 = basic_blocks m1"
        and mb: "merge_block m0 xs ps = Inr (m', True)"
        and post: "\<forall>post'. merge_scan inc m1 (pre @ c # post') = Inr (m', True)"
        by auto
      have pre': "merge_scan inc m (b # pre) = Inr (m0, False)"
        using merge_scan_append [OF head, of pre] pre by simp
      have post': "merge_scan inc m ((b # pre) @ c # post') = Inr (m', True)" for post'
        using merge_scan_append [OF head, of "pre @ c # post'"] post by simp
      have "b # bs = (b # pre) @ c # post \<and> merge_scan inc m (b # pre) = Inr (m0, False) \<and>
          instrs m0 = instrs m \<and> basic_blocks m0 = basic_blocks m \<and>
          merge_block m0 xs ps = Inr (m', True) \<and>
          (\<forall>post'. merge_scan inc m ((b # pre) @ c # post') = Inr (m', True))"
        using bs pre' m0 same mb post' by simp
      then show ?thesis using True by metis
    qed
  qed
qed

text \<open>
  C7. A scan of \<^verbatim>\<open>pass_merge_block\<close> applies at most one merge. When the scan
  reports an update, the blocks before some block b were passed over without any change
  to instructions or blocks, the result is that of the one call of \<^verbatim>\<open>merge_block\<close>
  for b, and the blocks after b play no part: the scan ends there, and the loop goes on
  with the function after \<^verbatim>\<open>finalize\<close> and \<^verbatim>\<open>generate_ssa_form\<close>. When it
  reports no update, instructions and blocks are as they were.
\<close>

theorem merge_scan_at_most_one_merge:
  assumes "merge_scan inc m bs = Inr (m', updated)"
  shows "(if updated then
           (\<exists>pre b post m0 xs ps.
              bs = pre @ b # post \<and>
              merge_scan inc m pre = Inr (m0, False) \<and>
              instrs m0 = instrs m \<and> basic_blocks m0 = basic_blocks m \<and>
              merge_block m0 xs ps = Inr (m', True) \<and>
              (\<forall>post'. merge_scan inc m (pre @ b # post') = Inr (m', True)))
         else instrs m' = instrs m \<and> basic_blocks m' = basic_blocks m) \<and>
        (bs = basic_blocks m \<and> updated \<longrightarrow>
           merge_loop fin inc (Suc n) m =
             merge_loop fin inc n (generate_ssa_form (finalize fin (scan_done m' True))))"
  using merge_scan_one_merge [OF assms] assms by auto

theorem merge_scan_at_most_one_merge_witness:
  "\<exists>pre b post m0 xs ps.
     basic_blocks two_pairs_example = pre @ b # post \<and>
     merge_scan MLIL_get_incoming_blocks two_pairs_example pre = Inr (m0, False) \<and>
     instrs m0 = instrs two_pairs_example \<and> basic_blocks m0 = basic_blocks two_pairs_example \<and>
     merge_block m0 xs ps =
       Inr (\<lparr>instrs = [If_op (Var 0) 7 4, Other 0, Goto 3, Ret 0, Other 1, Goto 6, Ret 1,
                       Other 0, Ret 0],
             basic_blocks = [Block 0 1, Block 1 3, Block 3 4, Block 4 6, Block 6 7],
             trace = []\<rparr>, True) \<and>
     (\<forall>post'. merge_scan MLIL_get_incoming_blocks two_pairs_example (pre @ b # post') =
       Inr (\<lparr>instrs = [If_op (Var 0) 7 4, Other 0, Goto 3, Ret 0, Other 1, Goto 6, Ret 1,
                       Other 0, Ret 0],
             basic_blocks = [Block 0 1, Block 1 3, Block 3 4, Block 4 6, Block 6 7],
             trace = []\<rparr>, True))"
proof -
  have h: "merge_scan MLIL_get_incoming_blocks two_pairs_example (basic_blocks two_pairs_example) =
      Inr (\<lparr>instrs = [If_op (Var 0) 7 4, Other 0, Goto 3, Ret 0, Other 1, Goto 6, Ret 1,
                      Other 0, Ret 0],
            basic_blocks = [Block 0 1, Block 1 3, Block 3 4, Block 4 6, Block 6 7],
            trace = []\<rparr>, True)"
    by code_simp
  from merge_scan_at_most_one_merge [OF h, of leader_blocks 0] show ?thesis by simp
qed

lemma redirect_raises_iff:
  "(\<exists>e. redirect m label first ps = Inl e) \<longleftrightarrow>
   (\<exists>p \<in> set ps. case op_of p of If_op c t f \<Rightarrow> t \<noteq> first \<and> f \<noteq> first | _ \<Rightarrow> False)"
  by (induction ps arbitrary: m) (auto split: op.splits)

text \<open>
  C2, on the code. \<^verbatim>\<open>merge_block\<close> compares the arms of a branch with the index of
  the first instruction of the merged sequence. When the block to merge consists of its
  jump only, that is the entry of the successor: the branch of block 0 below has its true
  arm at the entry 1 of the block to merge, it is the one predecessor the analyzer
  returns, and \<^verbatim>\<open>pass_merge_block\<close> ends in the fatal error.
\<close>

theorem merge_raises_for_single_jump_block:
  "MLIL_get_incoming_blocks single_jump_example 1 = [Block 0 1] \<and>
   bb_last single_jump_example (Block 0 1) = Inr (Instr 0 (If_op (Var 0) 1 3)) \<and>
   bb_last single_jump_example (Block 1 2) = Inr (Instr 1 (Goto 2)) \<and>
   pass_merge_block leader_blocks MLIL_get_incoming_blocks
     \<lparr>ctx_mlil = Some single_jump_example, ctx_function_mlil = None\<rparr> = Inl InvalidIfCondition"
  by code_simp

subsection \<open>The whole cycle\<close>

text \<open>
  C9, on the code. The entry block below jumps to a returning block with no other
  predecessor. Every scan of \<^verbatim>\<open>pass_merge_block\<close> merges the two again, appending a
  copy of both at the end of the function: the first run of the cycle leaves 11
  instructions, the second run 35.
\<close>

theorem second_cycle_appends_again:
  "map_option length (instrs_of (pass_clear 1000 leader_blocks MLIL_get_incoming_blocks
     \<lparr>ctx_mlil = Some entry_jump_example, ctx_function_mlil = None\<rparr>)) = Some 11 \<and>
   map_option length (instrs_of (pass_clear_twice 1000 leader_blocks MLIL_get_incoming_blocks
     \<lparr>ctx_mlil = Some entry_jump_example, ctx_function_mlil = None\<rparr>)) = Some 35"
  by code_simp

subsection \<open>Following jump chains\<close>

lemma follow_stop: "\<not> jump_at ops d \<Longrightarrow> follow ops k d = d"
  by (cases k) (auto simp: jump_at_def split: op.splits)

lemma follow_Suc_jump: "d < length ops \<Longrightarrow> ops ! d = Goto d' \<Longrightarrow> follow ops (Suc k) d = follow ops k d'"
  by simp

lemma jump_atE:
  assumes "jump_at ops d"
  obtains d' where "d < length ops" "ops ! d = Goto d'"
  using assms by (auto simp: jump_at_def split: op.splits)

lemma follow_add: "follow ops (a + b) d = follow ops b (follow ops a d)"
proof (induction a arbitrary: d)
  case 0
  then show ?case by simp
next
  case (Suc a)
  show ?case
  proof (cases "jump_at ops d")
    case False
    then show ?thesis by (metis follow_stop)
  next
    case True
    then obtain d' where d: "d < length ops" "ops ! d = Goto d'" by (rule jump_atE)
    with Suc.IH [of d'] show ?thesis by simp
  qed
qed

lemma follow_sink_le:
  assumes "\<not> jump_at ops (follow ops a d)" and "a \<le> b"
  shows "follow ops b d = follow ops a d"
proof -
  from assms(2) have "b = a + (b - a)" by simp
  then have "follow ops b d = follow ops (b - a) (follow ops a d)" by (metis follow_add)
  with assms(1) show ?thesis by (simp add: follow_stop)
qed

lemma follow_sink_unique:
  assumes "\<not> jump_at ops (follow ops a d)" and "\<not> jump_at ops (follow ops b d)"
  shows "follow ops a d = follow ops b d"
proof (cases "a \<le> b")
  case True
  from follow_sink_le [OF assms(1) True] show ?thesis by simp
next
  case False
  then have "b \<le> a" by simp
  from follow_sink_le [OF assms(2) this] show ?thesis by simp
qed


lemma calls_Nil [simp]: "calls [] = []"
  by (simp add: calls_def)

lemma calls_append [simp]: "calls (xs @ ys) = calls xs @ calls ys"
  by (simp add: calls_def)


lemma optimize_goto_Suc:
  "\<exists>m'. optimize_goto (Suc n) m (Instr i (Goto d)) =
          (if jump_at (instrs m) (follow (instrs m) n d) then Inl RecursionError
           else if follow (instrs m) n d < length (instrs m)
             then Inr (Instr (follow (instrs m) n d) (instrs m ! follow (instrs m) n d), m')
           else Inl IndexError) \<and>
        instrs m' = instrs m \<and> basic_blocks m' = basic_blocks m \<and>
        (\<exists>logs. trace m' = trace m @ logs \<and> calls logs = []) \<and>
        (\<not> jump_at (instrs m) d \<longrightarrow> m' = m)"
proof (induction n arbitrary: d i)
  case 0
  show ?case
  proof (cases "jump_at (instrs m) d")
    case True
    then obtain d' where d: "d < length (instrs m)" "instrs m ! d = Goto d'" by (rule jump_atE)
    have "optimize_goto (Suc 0) m (Instr i (Goto d)) = Inl RecursionError"
      using d by (simp add: getitem_def)
    with True show ?thesis by (intro exI [of _ m]) simp
  next
    case False
    show ?thesis
    proof (cases "d < length (instrs m)")
      case F: False
      then have "optimize_goto (Suc 0) m (Instr i (Goto d)) = Inl IndexError"
        by (simp add: getitem_def)
      with False F show ?thesis by (intro exI [of _ m]) simp
    next
      case True
      with False have "\<not> is_goto (Instr d (instrs m ! d))"
        by (cases "instrs m ! d") (simp_all add: jump_at_def)
      with True have "optimize_goto (Suc 0) m (Instr i (Goto d)) = Inr (Instr d (instrs m ! d), m)"
        by (simp add: getitem_def)
      with False True show ?thesis by (intro exI [of _ m]) simp
    qed
  qed
next
  case (Suc n)
  show ?case
  proof (cases "jump_at (instrs m) d")
    case False
    then have s: "follow (instrs m) (Suc n) d = d" by (rule follow_stop)
    show ?thesis
    proof (cases "d < length (instrs m)")
      case F: False
      then have "optimize_goto (Suc (Suc n)) m (Instr i (Goto d)) = Inl IndexError"
        by (simp add: getitem_def)
      with False F show ?thesis unfolding s by (intro exI [of _ m]) simp
    next
      case True
      with False have "\<not> is_goto (Instr d (instrs m ! d))"
        by (cases "instrs m ! d") (simp_all add: jump_at_def)
      with True have "optimize_goto (Suc (Suc n)) m (Instr i (Goto d)) = Inr (Instr d (instrs m ! d), m)"
        by (simp add: getitem_def)
      with False True show ?thesis unfolding s by (intro exI [of _ m]) simp
    qed
  next
    case True
    then obtain d' where d: "d < length (instrs m)" "instrs m ! d = Goto d'" by (rule jump_atE)
    then have s: "follow (instrs m) (Suc n) d = follow (instrs m) n d'" by simp
    let ?s = "follow (instrs m) n d'"
    from Suc.IH [of d d'] obtain m1 where
      rec: "optimize_goto (Suc n) m (Instr d (Goto d')) =
          (if jump_at (instrs m) ?s then Inl RecursionError
           else if ?s < length (instrs m) then Inr (Instr ?s (instrs m ! ?s), m1)
           else Inl IndexError)"
      and m1: "instrs m1 = instrs m" "basic_blocks m1 = basic_blocks m"
      and "\<exists>logs. trace m1 = trace m @ logs \<and> calls logs = []"
      by blast
    then obtain logs where logs: "trace m1 = trace m @ logs" "calls logs = []" by blast
    let ?m' = "log_info m1 i ?s"
    have step: "optimize_goto (Suc (Suc n)) m (Instr i (Goto d)) =
        (case optimize_goto (Suc n) m (Instr d (Goto d')) of
           Inl e \<Rightarrow> Inl e
         | Inr (final_target, m') \<Rightarrow> Inr (final_target, log_info m' i (instr_index final_target)))"
      using d by (subst optimize_goto.simps(2))
        (simp add: getitem_def del: optimize_goto.simps split: sum.splits)
    have res: "optimize_goto (Suc (Suc n)) m (Instr i (Goto d)) =
          (if jump_at (instrs m) ?s then Inl RecursionError
           else if ?s < length (instrs m) then Inr (Instr ?s (instrs m ! ?s), ?m')
           else Inl IndexError)"
      unfolding step rec by simp
    have "calls (logs @ [LogInfo i ?s]) = []" using logs(2) by (simp add: calls_def)
    moreover have "trace ?m' = trace m @ (logs @ [LogInfo i ?s])"
      using logs(1) by (simp add: log_info_def)
    ultimately have tr: "\<exists>logs. trace ?m' = trace m @ logs \<and> calls logs = []" by blast
    have "instrs ?m' = instrs m" "basic_blocks ?m' = basic_blocks m"
      using m1 by (simp_all add: log_info_def)
    with res tr True show ?thesis unfolding s by (intro exI [of _ ?m']) simp
  qed
qed

lemma final_target_at_result:
  "final_target_at rl m t =
     (if \<not> follow (instrs m) rl t < length (instrs m) then Inl IndexError
      else if rl = 0 \<or> jump_at (instrs m) (follow (instrs m) (rl - 1) t) then Inl RecursionError
      else Inr (Instr (follow (instrs m) (rl - 1) t) (instrs m ! follow (instrs m) (rl - 1) t)))"
proof (induction rl arbitrary: t)
  case 0
  show ?case by (simp add: final_target_at_def getitem_def)
next
  case (Suc n)
  show ?case
  proof (cases "t < length (instrs m)")
    case False
    then have "\<not> jump_at (instrs m) t" by (simp add: jump_at_def)
    then have "follow (instrs m) (Suc n) t = t" by (rule follow_stop)
    with False show ?thesis by (simp add: final_target_at_def getitem_def)
  next
    case True
    show ?thesis
    proof (cases "jump_at (instrs m) t")
      case False
      then have s: "follow (instrs m) (Suc n) t = t" "follow (instrs m) n t = t"
        by (metis follow_stop)+
      from False True have "final_target_at (Suc n) m t = Inr (Instr t (instrs m ! t))"
        by (cases "instrs m ! t") (simp_all add: final_target_at_def getitem_def jump_at_def)
      with False True s show ?thesis by simp
    next
      case J: True
      then obtain d where d: "instrs m ! t = Goto d" by (auto elim: jump_atE)
      have eq: "final_target_at (Suc n) m t = final_target_at n m d"
        using True d by (simp add: final_target_at_def getitem_def)
      have f: "follow (instrs m) (Suc n) t = follow (instrs m) n d" using True d by simp
      show ?thesis
      proof (cases n)
        case 0
        with eq f J show ?thesis using Suc.IH [of d] by simp
      next
        case (Suc k)
        then have g: "follow (instrs m) n t = follow (instrs m) (n - 1) d"
          using True d by simp
        from eq f g Suc show ?thesis using Suc.IH [of d] by simp
      qed
    qed
  qed
qed

subsection \<open>Compressing jump chains\<close>

lemma optimize_goto_Inr:
  assumes "optimize_goto rl m (Instr i (Goto d)) = Inr (x, m1)"
  shows "0 < rl \<and> x = Instr (follow (instrs m) (rl - 1) d) (instrs m ! follow (instrs m) (rl - 1) d) \<and>
     follow (instrs m) (rl - 1) d < length (instrs m) \<and>
     \<not> jump_at (instrs m) (follow (instrs m) (rl - 1) d) \<and>
     instrs m1 = instrs m \<and> basic_blocks m1 = basic_blocks m \<and>
     (\<exists>logs. trace m1 = trace m @ logs \<and> calls logs = [])"
proof (cases rl)
  case 0
  with assms show ?thesis by simp
next
  case (Suc n)
  from optimize_goto_Suc [of n m i d] obtain m' where
    eq: "optimize_goto (Suc n) m (Instr i (Goto d)) =
          (if jump_at (instrs m) (follow (instrs m) n d) then Inl RecursionError
           else if follow (instrs m) n d < length (instrs m)
             then Inr (Instr (follow (instrs m) n d) (instrs m ! follow (instrs m) n d), m')
           else Inl IndexError)"
    and m': "instrs m' = instrs m" "basic_blocks m' = basic_blocks m"
      "\<exists>logs. trace m' = trace m @ logs \<and> calls logs = []"
    by blast
  from assms eq Suc have "\<not> jump_at (instrs m) (follow (instrs m) n d)"
    "follow (instrs m) n d < length (instrs m)"
    "x = Instr (follow (instrs m) n d) (instrs m ! follow (instrs m) n d)" "m1 = m'"
    by (auto split: if_splits)
  with m' Suc show ?thesis by simp
qed

lemma goto_step_cases:
  assumes "goto_step rl m u bb = Inr (m', u')"
  shows "(\<exists>logs. trace m' = trace m @ logs \<and> calls logs = []) \<and>
     basic_blocks m' = basic_blocks m \<and> bb_end bb - 1 < length (instrs m) \<and>
     (instrs m' = instrs m \<and> u' = u \<and> settled (instrs m) (bb_end bb - 1) \<or>
      (\<exists>d s. instrs m ! (bb_end bb - 1) = Goto d \<and> 0 < rl \<and> follow (instrs m) (rl - 1) d = s \<and>
         s < length (instrs m) \<and> \<not> jump_at (instrs m) s \<and> s \<noteq> d \<and>
         instrs m' = (instrs m)[bb_end bb - 1 := Goto s] \<and> u'))"
proof -
  let ?i = "bb_end bb - 1"
  from assms obtain x where x: "bb_last m bb = Inr x"
    by (auto simp: goto_step_def split: sum.splits)
  from bb_last_Inr [OF x] have i: "x = Instr ?i (instrs m ! ?i)" "?i < length (instrs m)"
    by simp_all
  show ?thesis
  proof (cases "instrs m ! ?i")
    case (Goto d)
    with assms x i obtain y m1 where
      og: "optimize_goto rl m (Instr ?i (Goto d)) = Inr (y, m1)"
      by (auto simp: goto_step_def split: sum.splits)
    note o = optimize_goto_Inr [OF og]
    let ?s = "follow (instrs m) (rl - 1) d"
    from o have y: "instr_index y = ?s" by simp
    show ?thesis
    proof (cases "?s = d")
      case True
      with assms x i Goto og y have "m' = m1" "u' = u" by (auto simp: goto_step_def)
      moreover have "settled (instrs m) ?i" using Goto o True by (simp add: settled_def)
      ultimately show ?thesis using o i by simp
    next
      case False
      with assms x i Goto og y have m': "m' = replace_expr m1 ?i (Goto ?s)" and u': "u'"
        by (auto simp: goto_step_def)
      have "instrs m ! ?i = Goto d \<and> 0 < rl \<and> follow (instrs m) (rl - 1) d = ?s \<and>
         ?s < length (instrs m) \<and> \<not> jump_at (instrs m) ?s \<and> ?s \<noteq> d \<and>
         instrs m' = (instrs m)[?i := Goto ?s] \<and> u'"
        using Goto o False m' u' by (simp add: replace_expr_def)
      then have "\<exists>d s. instrs m ! ?i = Goto d \<and> 0 < rl \<and> follow (instrs m) (rl - 1) d = s \<and>
         s < length (instrs m) \<and> \<not> jump_at (instrs m) s \<and> s \<noteq> d \<and>
         instrs m' = (instrs m)[?i := Goto s] \<and> u'" by blast
      moreover have "(\<exists>logs. trace m' = trace m @ logs \<and> calls logs = []) \<and>
          basic_blocks m' = basic_blocks m"
        using o m' by (simp add: replace_expr_def)
      ultimately show ?thesis using i by blast
    qed
  next
    case (If_op c t f)
    with assms x i show ?thesis by (auto simp: goto_step_def settled_def)
  next
    case (Ret r)
    with assms x i show ?thesis by (auto simp: goto_step_def settled_def)
  next
    case (Other r)
    with assms x i show ?thesis by (auto simp: goto_step_def settled_def)
  qed
qed

lemma compressed_refl: "compressed ops ops"
  by (simp add: compressed_def)

lemma compressed_length: "compressed ops0 ops \<Longrightarrow> length ops = length ops0"
  by (simp add: compressed_def)

lemma compressed_entry:
  assumes "compressed ops0 ops" and "j < length ops0"
  obtains (same) "ops ! j = ops0 ! j"
  | (jump) d k where "ops0 ! j = Goto d" "ops ! j = Goto (follow ops0 k d)"
      "follow ops0 k d \<noteq> d" "\<not> jump_at ops0 (follow ops0 k d)" "follow ops0 k d < length ops0"
  using assms unfolding compressed_def by blast

lemma compressed_jump_at:
  assumes "compressed ops0 ops"
  shows "jump_at ops j = jump_at ops0 j"
proof (cases "j < length ops0")
  case False
  with assms show ?thesis by (simp add: compressed_def jump_at_def)
next
  case True
  from assms have len: "length ops = length ops0" by (rule compressed_length)
  from assms True show ?thesis
  proof (cases rule: compressed_entry)
    case same
    with len show ?thesis by (simp add: jump_at_def)
  next
    case (jump d k)
    with len True show ?thesis by (simp add: jump_at_def)
  qed
qed

lemma compressed_follow:
  "compressed ops0 ops \<Longrightarrow> \<not> jump_at ops0 (follow ops0 k d) \<Longrightarrow>
   follow ops k d = follow ops0 k d"
proof (induction k arbitrary: d)
  case 0
  then show ?case by simp
next
  case (Suc k)
  note c = Suc.prems(1)
  from c have len: "length ops = length ops0" by (rule compressed_length)
  show ?case
  proof (cases "jump_at ops0 d")
    case False
    with c have "\<not> jump_at ops d" by (simp add: compressed_jump_at)
    with False show ?thesis by (metis follow_stop)
  next
    case True
    then obtain d' where d: "d < length ops0" "ops0 ! d = Goto d'" by (rule jump_atE)
    with Suc.prems(2) have nj: "\<not> jump_at ops0 (follow ops0 k d')" by simp
    from d have f0: "follow ops0 (Suc k) d = follow ops0 k d'" by simp
    from c d(1) show ?thesis
    proof (cases rule: compressed_entry)
      case same
      with d len have "follow ops (Suc k) d = follow ops k d'" by simp
      with Suc.IH [OF c nj] f0 show ?thesis by simp
    next
      case (jump d0 k0)
      with d have d0: "d0 = d'" by simp
      let ?s = "follow ops0 k0 d'"
      from jump d0 have s: "ops ! d = Goto ?s" "\<not> jump_at ops0 ?s" by simp_all
      with c have "\<not> jump_at ops ?s" by (simp add: compressed_jump_at)
      then have "follow ops k ?s = ?s" by (rule follow_stop)
      with s(1) d(1) len have "follow ops (Suc k) d = ?s" by simp
      moreover from follow_sink_unique [OF s(2) nj] have "?s = follow ops0 k d'" .
      ultimately show ?thesis using f0 by simp
    qed
  qed
qed

lemma compressed_back:
  "compressed ops0 ops \<Longrightarrow> \<not> jump_at ops (follow ops k d) \<Longrightarrow>
   \<exists>k0. follow ops0 k0 d = follow ops k d"
proof (induction k arbitrary: d)
  case 0
  have "follow ops0 0 d = follow ops 0 d" by simp
  then show ?case by blast
next
  case (Suc k)
  note c = Suc.prems(1)
  from c have len: "length ops = length ops0" by (rule compressed_length)
  show ?case
  proof (cases "jump_at ops d")
    case False
    then have "follow ops (Suc k) d = d" by (rule follow_stop)
    then have "follow ops0 0 d = follow ops (Suc k) d" by simp
    then show ?thesis by blast
  next
    case True
    then obtain d' where d: "d < length ops" "ops ! d = Goto d'" by (rule jump_atE)
    then have f: "follow ops (Suc k) d = follow ops k d'" by simp
    from d(1) len have d0: "d < length ops0" by simp
    from c d0 show ?thesis
    proof (cases rule: compressed_entry)
      case same
      with d have o: "ops0 ! d = Goto d'" by simp
      from Suc.prems(2) f have "\<not> jump_at ops (follow ops k d')" by simp
      from Suc.IH [OF c this] obtain k0 where "follow ops0 k0 d' = follow ops k d'" by blast
      with o d0 f have "follow ops0 (Suc k0) d = follow ops (Suc k) d" by simp
      then show ?thesis by blast
    next
      case (jump d1 k1)
      with d have d': "d' = follow ops0 k1 d1" by simp
      from jump c d' have "\<not> jump_at ops d'" by (simp add: compressed_jump_at)
      then have "follow ops k d' = d'" by (rule follow_stop)
      with f have "follow ops (Suc k) d = d'" by simp
      moreover from jump d0 d' have "follow ops0 (Suc k1) d = d'" by simp
      ultimately have "follow ops0 (Suc k1) d = follow ops (Suc k) d" by simp
      then show ?thesis by blast
    qed
  qed
qed

lemma compressed_step:
  assumes c: "compressed ops0 ops" and i: "i < length ops" and g: "ops ! i = Goto d"
    and f: "follow ops k d = s" and nj: "\<not> jump_at ops s" and sl: "s < length ops"
    and ne: "s \<noteq> d"
  shows "compressed ops0 (ops[i := Goto s])" and "ops[i := Goto s] \<noteq> ops0"
    and "ops0 ! i = Goto d"
proof -
  from c have len: "length ops = length ops0" by (rule compressed_length)
  have jd: "jump_at ops d"
  proof (rule ccontr)
    assume "\<not> jump_at ops d"
    then have "follow ops k d = d" by (rule follow_stop)
    with f ne show False by simp
  qed
  from i len have i0: "i < length ops0" by simp
  from c i0 show orig: "ops0 ! i = Goto d"
  proof (cases rule: compressed_entry)
    case same
    with g show ?thesis by simp
  next
    case (jump d1 k1)
    with g have "\<not> jump_at ops0 d" by simp
    with jd compressed_jump_at [OF c] show ?thesis by simp
  qed
  from nj compressed_jump_at [OF c] have nj0: "\<not> jump_at ops0 s" by simp
  from f nj compressed_back [OF c, of k d] obtain k0 where k0: "follow ops0 k0 d = s" by auto
  show "compressed ops0 (ops[i := Goto s])"
    unfolding compressed_def
  proof (intro conjI allI impI)
    show "length (ops[i := Goto s]) = length ops0" using len by simp
  next
    fix j assume j: "j < length ops0"
    show "ops[i := Goto s] ! j = ops0 ! j \<or>
        (\<exists>d k. ops0 ! j = Goto d \<and> ops[i := Goto s] ! j = Goto (follow ops0 k d) \<and>
           follow ops0 k d \<noteq> d \<and> \<not> jump_at ops0 (follow ops0 k d) \<and>
           follow ops0 k d < length ops0)"
    proof (cases "j = i")
      case True
      have "ops0 ! j = Goto d \<and> ops[i := Goto s] ! j = Goto (follow ops0 k0 d) \<and>
           follow ops0 k0 d \<noteq> d \<and> \<not> jump_at ops0 (follow ops0 k0 d) \<and>
           follow ops0 k0 d < length ops0"
        using True orig k0 ne nj0 sl len i by simp
      then show ?thesis by blast
    next
      case False
      with c j show ?thesis by (simp add: compressed_def)
    qed
  qed
  show "ops[i := Goto s] \<noteq> ops0"
  proof
    assume "ops[i := Goto s] = ops0"
    then have "ops[i := Goto s] ! i = ops0 ! i" by simp
    with i orig ne show False by simp
  qed
qed

lemma jump_at_update_goto:
  "i < length ops \<Longrightarrow> ops ! i = Goto d \<Longrightarrow> jump_at (ops[i := Goto s]) x = jump_at ops x"
  by (cases "x = i") (simp_all add: jump_at_def)

lemma settled_update:
  assumes "i < length ops" and "ops ! i = Goto d" and "s < length ops" and "\<not> jump_at ops s"
  shows "settled (ops[i := Goto s]) i" and "settled ops j \<Longrightarrow> settled (ops[i := Goto s]) j"
proof -
  note ja = jump_at_update_goto [OF assms(1,2)]
  show "settled (ops[i := Goto s]) i"
    using assms by (simp add: settled_def ja)
  show "settled (ops[i := Goto s]) j" if "settled ops j"
  proof (cases "j = i")
    case True
    with assms show ?thesis by (simp add: settled_def ja)
  next
    case False
    with that show ?thesis by (simp add: settled_def ja)
  qed
qed

lemma goto_step_inv:
  assumes step: "goto_step rl m u bb = Inr (m', u')"
    and c: "compressed ops0 (instrs m)"
  shows "compressed ops0 (instrs m')"
    and "u = (instrs m \<noteq> ops0) \<Longrightarrow> u' = (instrs m' \<noteq> ops0)"
    and "settled (instrs m') (bb_end bb - 1)"
    and "settled (instrs m) j \<Longrightarrow> settled (instrs m') j"
proof -
  let ?i = "bb_end bb - 1"
  note sc = goto_step_cases [OF step]
  from sc have i: "?i < length (instrs m)" by simp
  from sc have "instrs m' = instrs m \<and> u' = u \<and> settled (instrs m) ?i \<or>
      (\<exists>d s. instrs m ! ?i = Goto d \<and> 0 < rl \<and> follow (instrs m) (rl - 1) d = s \<and>
         s < length (instrs m) \<and> \<not> jump_at (instrs m) s \<and> s \<noteq> d \<and>
         instrs m' = (instrs m)[?i := Goto s] \<and> u')" by simp
  then have "compressed ops0 (instrs m') \<and>
      (u = (instrs m \<noteq> ops0) \<longrightarrow> u' = (instrs m' \<noteq> ops0)) \<and>
      settled (instrs m') ?i \<and> (settled (instrs m) j \<longrightarrow> settled (instrs m') j)"
  proof
    assume "instrs m' = instrs m \<and> u' = u \<and> settled (instrs m) ?i"
    with c show ?thesis by simp
  next
    assume "\<exists>d s. instrs m ! ?i = Goto d \<and> 0 < rl \<and> follow (instrs m) (rl - 1) d = s \<and>
         s < length (instrs m) \<and> \<not> jump_at (instrs m) s \<and> s \<noteq> d \<and>
         instrs m' = (instrs m)[?i := Goto s] \<and> u'"
    then obtain d s where g: "instrs m ! ?i = Goto d" and f: "follow (instrs m) (rl - 1) d = s"
      and sl: "s < length (instrs m)" and nj: "\<not> jump_at (instrs m) s" and ne: "s \<noteq> d"
      and m': "instrs m' = (instrs m)[?i := Goto s]" and u': "u'" by blast
    note cs = compressed_step [OF c i g f nj sl ne]
    note su = settled_update [OF i g sl nj]
    from cs su m' u' show ?thesis by simp
  qed
  then show "compressed ops0 (instrs m')"
    and "u = (instrs m \<noteq> ops0) \<Longrightarrow> u' = (instrs m' \<noteq> ops0)"
    and "settled (instrs m') (bb_end bb - 1)"
    and "settled (instrs m) j \<Longrightarrow> settled (instrs m') j" by simp_all
qed

lemma goto_scan_inv:
  "goto_scan rl m u bbs = Inr (m', u') \<Longrightarrow> compressed ops0 (instrs m) \<Longrightarrow>
   compressed ops0 (instrs m') \<and>
   (u = (instrs m \<noteq> ops0) \<longrightarrow> u' = (instrs m' \<noteq> ops0)) \<and>
   (\<exists>logs. trace m' = trace m @ logs \<and> calls logs = []) \<and>
   basic_blocks m' = basic_blocks m \<and>
   (\<forall>j. settled (instrs m) j \<longrightarrow> settled (instrs m') j) \<and>
   (\<forall>bb \<in> set bbs. bb_end bb - 1 < length ops0 \<and> settled (instrs m') (bb_end bb - 1))"
proof (induction bbs arbitrary: m u)
  case Nil
  then show ?case by auto
next
  case (Cons bb bbs)
  from Cons.prems(1) obtain m1 u1 where
    step: "goto_step rl m u bb = Inr (m1, u1)" and rest: "goto_scan rl m1 u1 bbs = Inr (m', u')"
    by (auto split: sum.splits)
  note si = goto_step_inv [OF step Cons.prems(2)]
  note sc = goto_step_cases [OF step]
  note ih = Cons.IH [OF rest si(1)]
  have fl: "u' = (instrs m' \<noteq> ops0)" if "u = (instrs m \<noteq> ops0)"
    using si(2) [OF that] ih by simp
  from sc obtain l1 where l1: "trace m1 = trace m @ l1" "calls l1 = []" by blast
  from ih obtain l2 where l2: "trace m' = trace m1 @ l2" "calls l2 = []" by blast
  from l1 l2 have "trace m' = trace m @ (l1 @ l2) \<and> calls (l1 @ l2) = []" by simp
  then have tr: "\<exists>logs. trace m' = trace m @ logs \<and> calls logs = []" by blast
  have bl: "basic_blocks m' = basic_blocks m" using sc ih by simp
  have pres: "settled (instrs m') j" if "settled (instrs m) j" for j
    using si(4) [OF that] ih by simp
  have hd: "bb_end bb - 1 < length ops0 \<and> settled (instrs m') (bb_end bb - 1)"
    using sc si(3) ih compressed_length [OF Cons.prems(2)] by simp
  from ih tr bl pres hd fl show ?case by simp
qed

lemma goto_loop_inv:
  "goto_loop rl fin n m = Inr m' \<Longrightarrow> compressed ops0 (instrs m) \<Longrightarrow>
   compressed ops0 (instrs m') \<and>
   (\<forall>j. settled (instrs m) j \<longrightarrow> settled (instrs m') j) \<and>
   (0 < n \<longrightarrow> (\<forall>bb \<in> set (basic_blocks m).
      bb_end bb - 1 < length ops0 \<and> settled (instrs m') (bb_end bb - 1)))"
proof (induction n arbitrary: m)
  case 0
  then show ?case by simp
next
  case (Suc n)
  from Suc.prems(1) obtain m1 u where
    scan: "goto_scan rl m False (basic_blocks m) = Inr (m1, u)"
    by (auto split: sum.splits)
  note s = goto_scan_inv [OF scan Suc.prems(2)]
  show ?case
  proof (cases u)
    case False
    with Suc.prems(1) scan have "m' = scan_done m1 False" by simp
    then have "instrs m' = instrs m1" by (simp add: scan_done_def)
    with s show ?thesis by simp
  next
    case True
    let ?m2 = "generate_ssa_form (finalize fin (scan_done m1 True))"
    have i2: "instrs ?m2 = instrs m1"
      by (simp add: generate_ssa_form_def finalize_def scan_done_def)
    from True Suc.prems(1) scan have rest: "goto_loop rl fin n ?m2 = Inr m'" by simp
    from s have "compressed ops0 (instrs ?m2)" unfolding i2 by simp
    note ih = Suc.IH [OF rest this, unfolded i2]
    from s ih show ?thesis by simp
  qed
qed

lemma pass_clear_goto_Inr:
  assumes "ctx_mlil ctx = Some m" and "pass_clear_goto rl fin ctx = Inr ctx'"
  shows "\<exists>m'. ctx' = ctx\<lparr>ctx_mlil := Some m'\<rparr> \<and> compressed (instrs m) (instrs m') \<and>
     (\<forall>bb \<in> set (basic_blocks m).
        bb_end bb - 1 < length (instrs m) \<and> settled (instrs m') (bb_end bb - 1))"
proof -
  from assms obtain m1 where loop: "goto_loop rl fin (length (basic_blocks m)) m = Inr m1"
    and ctx': "ctx' = ctx\<lparr>ctx_mlil := Some (generate_ssa_form (finalize fin m1))\<rparr>"
    by (auto simp: pass_clear_goto_def split: sum.splits)
  let ?m' = "generate_ssa_form (finalize fin m1)"
  have i': "instrs ?m' = instrs m1" by (simp add: generate_ssa_form_def finalize_def)
  note l = goto_loop_inv [OF loop compressed_refl]
  have "bb_end bb - 1 < length (instrs m) \<and> settled (instrs ?m') (bb_end bb - 1)"
    if "bb \<in> set (basic_blocks m)" for bb
  proof -
    from that have "0 < length (basic_blocks m)" by (cases "basic_blocks m") auto
    with l that show ?thesis unfolding i' by simp
  qed
  with ctx' l show ?thesis unfolding i' [symmetric] by blast
qed

lemma compressed_settled_jump:
  assumes c: "compressed ops0 ops" and i: "i < length ops0" and s: "settled ops i"
    and g: "ops0 ! i = Goto d"
  shows "\<exists>k. follow ops0 k d < length ops0 \<and> \<not> jump_at ops0 (follow ops0 k d) \<and>
     ops ! i = Goto (follow ops0 k d)"
  using c i
proof (cases rule: compressed_entry)
  case same
  with g s have "d < length ops" "\<not> jump_at ops d" by (simp_all add: settled_def)
  with c have "d < length ops0" "\<not> jump_at ops0 d"
    by (simp_all add: compressed_jump_at compressed_length)
  with same g have "follow ops0 0 d < length ops0 \<and> \<not> jump_at ops0 (follow ops0 0 d) \<and>
     ops ! i = Goto (follow ops0 0 d)" by simp
  then show ?thesis by blast
next
  case (jump d1 k)
  with g show ?thesis by auto
qed

lemma compressed_other:
  assumes "compressed ops0 ops" and "j < length ops0" and "\<forall>d. ops0 ! j \<noteq> Goto d"
  shows "ops ! j = ops0 ! j"
  using assms(1,2)
proof (cases rule: compressed_entry)
  case same
  then show ?thesis .
next
  case (jump d k)
  with assms(3) show ?thesis by simp
qed

text \<open>Runs that come to an end without error\<close>

lemma follow_in_range:
  "\<forall>x \<in> set ops. \<forall>d \<in> set (targets x). d < length ops \<Longrightarrow> d < length ops \<Longrightarrow>
   follow ops k d < length ops"
proof (induction k arbitrary: d)
  case 0
  then show ?case by simp
next
  case (Suc k)
  show ?case
  proof (cases "ops ! d")
    case (Goto d')
    with Suc.prems have "d' < length ops" by (metis nth_mem targets.simps(1) list.set_intros(1))
    from Suc.IH [OF Suc.prems(1) this] Goto Suc.prems(2) show ?thesis by simp
  qed (use Suc.prems in simp_all)
qed

lemma chains_resolveD:
  assumes "chains_resolve rl ops" and "j < length ops" and "d \<in> set (targets (ops ! j))"
  shows "0 < rl" and "d < length ops" and "\<not> jump_at ops (follow ops (rl - 1) d)"
    and "follow ops (rl - 1) d < length ops"
proof -
  from assms(1) show "0 < rl" by (simp add: chains_resolve_def)
  from assms(1) have all: "\<forall>x \<in> set ops. \<forall>d \<in> set (targets x).
      d < length ops \<and> \<not> jump_at ops (follow ops (rl - 1) d)"
    by (simp add: chains_resolve_def list_all_iff)
  with assms(2,3) show d: "d < length ops" and "\<not> jump_at ops (follow ops (rl - 1) d)"
    by (metis nth_mem)+
  from all have "\<forall>x \<in> set ops. \<forall>d \<in> set (targets x). d < length ops" by blast
  from follow_in_range [OF this d] show "follow ops (rl - 1) d < length ops" .
qed

lemma compressed_chains_resolve:
  assumes c: "compressed ops0 ops" and r: "chains_resolve rl ops0"
  shows "chains_resolve rl ops"
proof -
  from c have len: "length ops = length ops0" by (rule compressed_length)
  from r have rl: "0 < rl" by (simp add: chains_resolve_def)
  have "d < length ops \<and> \<not> jump_at ops (follow ops (rl - 1) d)"
    if x: "x \<in> set ops" and d: "d \<in> set (targets x)" for x d
  proof -
    from x obtain j where j: "j < length ops" "x = ops ! j" by (auto simp: in_set_conv_nth)
    with len have j0: "j < length ops0" by simp
    from c j0 show ?thesis
    proof (cases rule: compressed_entry)
      case same
      with j d have "d \<in> set (targets (ops0 ! j))" by simp
      note D = chains_resolveD [OF r j0 this]
      from compressed_follow [OF c D(3)] D c len show ?thesis
        by (simp add: compressed_jump_at)
    next
      case (jump d1 k)
      with j d have dd: "d = follow ops0 k d1" by simp
      with jump c have nj: "\<not> jump_at ops d" by (simp add: compressed_jump_at)
      then have "follow ops (rl - 1) d = d" by (rule follow_stop)
      with nj dd jump len show ?thesis by simp
    qed
  qed
  with rl show ?thesis by (simp add: chains_resolve_def list_all_iff)
qed

lemma goto_step_total:
  assumes r: "chains_resolve rl (instrs m)" and wf: "wf_block (instrs m) bb"
  shows "\<exists>m' u'. goto_step rl m u bb = Inr (m', u')"
proof -
  let ?i = "bb_end bb - 1"
  from wf have i: "?i < length (instrs m)" unfolding wf_block_def by arith
  note bl = bb_last_wf [OF wf]
  show ?thesis
  proof (cases "instrs m ! ?i")
    case (Goto d)
    then have "d \<in> set (targets (instrs m ! ?i))" by simp
    note D = chains_resolveD [OF r i this]
    from D(1) obtain n where n: "rl = Suc n" by (cases rl) auto
    from optimize_goto_Suc [of n m ?i d] D n obtain m1 where
      "optimize_goto rl m (Instr ?i (Goto d)) =
         Inr (Instr (follow (instrs m) n d) (instrs m ! follow (instrs m) n d), m1)"
      by auto
    with bl Goto show ?thesis by (auto simp: goto_step_def)
  qed (use bl in \<open>simp_all add: goto_step_def\<close>)
qed

lemma goto_scan_total:
  "chains_resolve rl (instrs m) \<Longrightarrow> \<forall>bb \<in> set bbs. wf_block (instrs m) bb \<Longrightarrow>
   \<exists>m' u'. goto_scan rl m u bbs = Inr (m', u') \<and> chains_resolve rl (instrs m') \<and>
     length (instrs m') = length (instrs m)"
proof (induction bbs arbitrary: m u)
  case Nil
  then show ?case by simp
next
  case (Cons bb bbs)
  from goto_step_total [OF Cons.prems(1), of bb u] Cons.prems(2) obtain m1 u1 where
    step: "goto_step rl m u bb = Inr (m1, u1)" by auto
  from goto_step_inv(1) [OF step compressed_refl] have c: "compressed (instrs m) (instrs m1)" .
  from compressed_chains_resolve [OF c Cons.prems(1)] have r1: "chains_resolve rl (instrs m1)" .
  from c have len: "length (instrs m1) = length (instrs m)" by (rule compressed_length)
  with Cons.prems(2) have "\<forall>bb \<in> set bbs. wf_block (instrs m1) bb" by (simp add: wf_block_def)
  from Cons.IH [OF r1 this, of u1] step len show ?case by auto
qed

lemma goto_loop_total:
  "wf_fin fin \<Longrightarrow> chains_resolve rl (instrs m) \<Longrightarrow>
   \<forall>bb \<in> set (basic_blocks m). wf_block (instrs m) bb \<Longrightarrow>
   \<exists>m'. goto_loop rl fin n m = Inr m'"
proof (induction n arbitrary: m)
  case 0
  then show ?case by simp
next
  case (Suc n)
  from goto_scan_total [OF Suc.prems(2,3), of False] obtain m1 u where
    scan: "goto_scan rl m False (basic_blocks m) = Inr (m1, u)"
    and r1: "chains_resolve rl (instrs m1)" by blast
  let ?m2 = "generate_ssa_form (finalize fin (scan_done m1 True))"
  have i2: "instrs ?m2 = instrs m1"
    by (simp add: generate_ssa_form_def finalize_def scan_done_def)
  have "\<forall>bb \<in> set (basic_blocks ?m2). wf_block (instrs ?m2) bb"
    using Suc.prems(1) by (simp add: wf_fin_def generate_ssa_form_def finalize_def scan_done_def)
  moreover have "chains_resolve rl (instrs ?m2)" using r1 unfolding i2 .
  ultimately obtain m' where "goto_loop rl fin n ?m2 = Inr m'"
    using Suc.IH [OF Suc.prems(1)] by blast
  with scan show ?case by (cases u) simp_all
qed

lemma pass_clear_goto_total:
  assumes "ctx_mlil ctx = Some m" and "wf_fin fin" and "chains_resolve rl (instrs m)"
    and "\<forall>bb \<in> set (basic_blocks m). wf_block (instrs m) bb"
  shows "\<exists>ctx'. pass_clear_goto rl fin ctx = Inr ctx'"
  using goto_loop_total [OF assms(2,3,4), of "length (basic_blocks m)"] assms(1)
  by (auto simp: pass_clear_goto_def)

text \<open>Chains that never end\<close>

lemma compressed_cycle:
  assumes c: "compressed ops0 ops" and cyc: "\<forall>k. jump_at ops0 (follow ops0 k d)"
  shows "jump_at ops (follow ops k d)"
proof (rule ccontr)
  assume n: "\<not> jump_at ops (follow ops k d)"
  from compressed_back [OF c n] obtain k0 where "follow ops0 k0 d = follow ops k d" by blast
  with n compressed_jump_at [OF c] cyc show False by metis
qed

lemma goto_step_cycle:
  assumes c: "compressed ops0 (instrs m)" and g: "ops0 ! (bb_end bb - 1) = Goto d"
    and cyc: "\<forall>k. jump_at ops0 (follow ops0 k d)"
  shows "\<exists>e. goto_step rl m u bb = Inl e"
proof (cases "bb_last m bb")
  case (Inl e)
  then show ?thesis by (simp add: goto_step_def)
next
  case (Inr x)
  let ?i = "bb_end bb - 1"
  from bb_last_Inr [OF Inr] have x: "x = Instr ?i (instrs m ! ?i)" and i: "?i < length (instrs m)"
    by simp_all
  from i c have i0: "?i < length ops0" by (simp add: compressed_length)
  have cur: "instrs m ! ?i = Goto d"
    using c i0
  proof (cases rule: compressed_entry)
    case same
    with g show ?thesis by simp
  next
    case (jump d1 k)
    with g cyc show ?thesis by auto
  qed
  have "optimize_goto rl m (Instr ?i (Goto d)) = Inl RecursionError"
  proof (cases rl)
    case 0
    then show ?thesis by simp
  next
    case (Suc n)
    from compressed_cycle [OF c cyc] have "jump_at (instrs m) (follow (instrs m) n d)" .
    with optimize_goto_Suc [of n m ?i d] Suc show ?thesis by auto
  qed
  with Inr x cur show ?thesis by (simp add: goto_step_def)
qed

lemma goto_scan_cycle:
  "bb \<in> set bbs \<Longrightarrow> compressed ops0 (instrs m) \<Longrightarrow> ops0 ! (bb_end bb - 1) = Goto d \<Longrightarrow>
   \<forall>k. jump_at ops0 (follow ops0 k d) \<Longrightarrow> \<exists>e. goto_scan rl m u bbs = Inl e"
proof (induction bbs arbitrary: m u)
  case Nil
  then show ?case by simp
next
  case (Cons b bbs)
  show ?case
  proof (cases "goto_step rl m u b")
    case (Inl e)
    then show ?thesis by simp
  next
    case (Inr p)
    obtain m1 u1 where p: "p = (m1, u1)" by (cases p)
    with Inr have step: "goto_step rl m u b = Inr (m1, u1)" by simp
    from goto_step_cycle [OF Cons.prems(2,3,4), of rl u] step Cons.prems(1)
    have "bb \<in> set bbs" by auto
    from Cons.IH [OF this goto_step_inv(1) [OF step Cons.prems(2)] Cons.prems(3,4), of u1] step
    show ?thesis by simp
  qed
qed

lemma pass_clear_goto_cycle:
  assumes "ctx_mlil ctx = Some m" and "bb \<in> set (basic_blocks m)"
    and "instrs m ! (bb_end bb - 1) = Goto d"
    and "\<forall>k. jump_at (instrs m) (follow (instrs m) k d)"
  shows "\<exists>e. pass_clear_goto rl fin ctx = Inl e"
proof -
  from assms(2) obtain n where n: "length (basic_blocks m) = Suc n"
    by (cases "basic_blocks m") auto
  from goto_scan_cycle [OF assms(2) compressed_refl assms(3,4), of rl False] obtain e where
    "goto_scan rl m False (basic_blocks m) = Inl e" by blast
  then have "goto_loop rl fin (Suc n) m = Inl e" by simp
  with assms(1) n show ?thesis by (simp add: pass_clear_goto_def)
qed

lemma goto_scan_flag:
  "goto_scan rl m False bbs = Inr (m', u') \<Longrightarrow> u' = (instrs m' \<noteq> instrs m)"
  using goto_scan_inv [of rl m False bbs m' u' "instrs m"] by (simp add: compressed_refl)

subsection \<open>Redirecting branch arms\<close>

lemma final_target_at_Inr:
  assumes "final_target_at rl m t = Inr x"
  shows "0 < rl" and "x = Instr (follow (instrs m) (rl - 1) t) (instrs m ! follow (instrs m) (rl - 1) t)"
    and "follow (instrs m) (rl - 1) t < length (instrs m)"
    and "\<not> jump_at (instrs m) (follow (instrs m) (rl - 1) t)"
proof -
  from assms have a: "follow (instrs m) rl t < length (instrs m)" and "0 < rl"
    and nj: "\<not> jump_at (instrs m) (follow (instrs m) (rl - 1) t)"
    and x: "x = Instr (follow (instrs m) (rl - 1) t) (instrs m ! follow (instrs m) (rl - 1) t)"
    unfolding final_target_at_result by (auto split: if_splits)
  then show "0 < rl" "\<not> jump_at (instrs m) (follow (instrs m) (rl - 1) t)"
    "x = Instr (follow (instrs m) (rl - 1) t) (instrs m ! follow (instrs m) (rl - 1) t)"
    by simp_all
  from follow_sink_le [OF nj, of rl] a show "follow (instrs m) (rl - 1) t < length (instrs m)"
    by simp
qed

lemma final_target_at_sink:
  assumes "0 < rl" and "\<not> jump_at (instrs m) (follow (instrs m) (rl - 1) t)"
    and "follow (instrs m) (rl - 1) t < length (instrs m)"
  shows "final_target_at rl m t =
     Inr (Instr (follow (instrs m) (rl - 1) t) (instrs m ! follow (instrs m) (rl - 1) t))"
proof -
  from follow_sink_le [OF assms(2), of rl] assms(3)
  have "follow (instrs m) rl t < length (instrs m)" by simp
  with assms show ?thesis unfolding final_target_at_result by simp
qed

lemma final_target_at_cycle:
  assumes "\<forall>k. jump_at (instrs m) (follow (instrs m) k t)"
  shows "final_target_at rl m t = Inl RecursionError"
proof -
  from assms have "jump_at (instrs m) (follow (instrs m) rl t)"
    "jump_at (instrs m) (follow (instrs m) (rl - 1) t)" by simp_all
  then show ?thesis unfolding final_target_at_result by (simp add: jump_at_def)
qed

lemma if_step_cases:
  assumes "if_step rl m u bb = Inr (m', u')"
  shows "trace m' = trace m \<and> basic_blocks m' = basic_blocks m \<and>
     bb_end bb - 1 < length (instrs m) \<and>
     (instrs m' = instrs m \<and> u' = u \<and> settled_if (instrs m) (bb_end bb - 1) \<or>
      (\<exists>c t f st sf. instrs m ! (bb_end bb - 1) = If_op c t f \<and> 0 < rl \<and>
         follow (instrs m) (rl - 1) t = st \<and> follow (instrs m) (rl - 1) f = sf \<and>
         st < length (instrs m) \<and> sf < length (instrs m) \<and>
         \<not> jump_at (instrs m) st \<and> \<not> jump_at (instrs m) sf \<and> (st \<noteq> t \<or> sf \<noteq> f) \<and>
         instrs m' = (instrs m)[bb_end bb - 1 := If_op c st sf] \<and> u'))"
proof -
  let ?i = "bb_end bb - 1"
  from assms obtain x where x: "bb_last m bb = Inr x"
    by (auto simp: if_step_def split: sum.splits)
  from bb_last_Inr [OF x] have i: "x = Instr ?i (instrs m ! ?i)" "?i < length (instrs m)"
    by simp_all
  show ?thesis
  proof (cases "instrs m ! ?i")
    case (If_op c t f)
    with assms x i obtain y z where
      y: "final_target_at rl m t = Inr y" and z: "final_target_at rl m f = Inr z"
      by (auto simp: if_step_def split: sum.splits)
    note Y = final_target_at_Inr [OF y] and Z = final_target_at_Inr [OF z]
    let ?st = "follow (instrs m) (rl - 1) t" and ?sf = "follow (instrs m) (rl - 1) f"
    from Y Z have yi: "instr_index y = ?st" and zi: "instr_index z = ?sf" by simp_all
    show ?thesis
    proof (cases "?st \<noteq> t \<or> ?sf \<noteq> f")
      case False
      with assms x i If_op y z yi zi have "m' = m" "u' = u" by (auto simp: if_step_def)
      moreover have "settled_if (instrs m) ?i"
        using If_op False Y Z by (simp add: settled_if_def)
      ultimately show ?thesis using i by simp
    next
      case True
      with assms x i If_op y z yi zi have
        m': "m' = replace_expr m ?i (If_op c ?st ?sf)" and u': "u'"
        by (auto simp: if_step_def copy_cond_def)
      have "instrs m ! ?i = If_op c t f \<and> 0 < rl \<and>
         follow (instrs m) (rl - 1) t = ?st \<and> follow (instrs m) (rl - 1) f = ?sf \<and>
         ?st < length (instrs m) \<and> ?sf < length (instrs m) \<and>
         \<not> jump_at (instrs m) ?st \<and> \<not> jump_at (instrs m) ?sf \<and> (?st \<noteq> t \<or> ?sf \<noteq> f) \<and>
         instrs m' = (instrs m)[?i := If_op c ?st ?sf] \<and> u'"
        using If_op Y Z True m' u' by (simp add: replace_expr_def)
      then have "\<exists>c t f st sf. instrs m ! ?i = If_op c t f \<and> 0 < rl \<and>
         follow (instrs m) (rl - 1) t = st \<and> follow (instrs m) (rl - 1) f = sf \<and>
         st < length (instrs m) \<and> sf < length (instrs m) \<and>
         \<not> jump_at (instrs m) st \<and> \<not> jump_at (instrs m) sf \<and> (st \<noteq> t \<or> sf \<noteq> f) \<and>
         instrs m' = (instrs m)[?i := If_op c st sf] \<and> u'" by blast
      moreover have "trace m' = trace m \<and> basic_blocks m' = basic_blocks m"
        using m' by (simp add: replace_expr_def)
      ultimately show ?thesis using i by blast
    qed
  next
    case (Goto d)
    with assms x i show ?thesis by (auto simp: if_step_def settled_if_def)
  next
    case (Ret r)
    with assms x i show ?thesis by (auto simp: if_step_def settled_if_def)
  next
    case (Other r)
    with assms x i show ?thesis by (auto simp: if_step_def settled_if_def)
  qed
qed

lemma redirected_refl: "redirected ops ops"
  by (simp add: redirected_def)

lemma redirected_length: "redirected ops0 ops \<Longrightarrow> length ops = length ops0"
  by (simp add: redirected_def)

lemma redirected_entry:
  assumes "redirected ops0 ops" and "j < length ops0"
  obtains (same) "ops ! j = ops0 ! j"
  | (branch) c t f kt kf where "ops0 ! j = If_op c t f"
      "ops ! j = If_op c (follow ops0 kt t) (follow ops0 kf f)"
      "follow ops0 kt t \<noteq> t \<or> follow ops0 kf f \<noteq> f"
      "\<not> jump_at ops0 (follow ops0 kt t)" "\<not> jump_at ops0 (follow ops0 kf f)"
      "follow ops0 kt t < length ops0" "follow ops0 kf f < length ops0"
  using assms unfolding redirected_def by blast

lemma redirected_goto:
  assumes "redirected ops0 ops" and "j < length ops0"
  shows "(ops ! j = Goto d) = (ops0 ! j = Goto d)"
  using assms by (cases rule: redirected_entry) simp_all

lemma redirected_jump_at:
  assumes "redirected ops0 ops"
  shows "jump_at ops j = jump_at ops0 j"
proof (cases "j < length ops0")
  case False
  with assms show ?thesis by (simp add: redirected_def jump_at_def)
next
  case True
  from assms have len: "length ops = length ops0" by (rule redirected_length)
  from assms True show ?thesis
  proof (cases rule: redirected_entry)
    case same
    with len show ?thesis by (simp add: jump_at_def)
  next
    case (branch c t f kt kf)
    with len True show ?thesis by (simp add: jump_at_def)
  qed
qed

lemma redirected_follow: "redirected ops0 ops \<Longrightarrow> follow ops k d = follow ops0 k d"
proof (induction k arbitrary: d)
  case 0
  then show ?case by simp
next
  case (Suc k)
  from Suc.prems have len: "length ops = length ops0" by (rule redirected_length)
  show ?case
  proof (cases "d < length ops0")
    case False
    with len show ?thesis by simp
  next
    case True
    from Suc.prems True show ?thesis
    proof (cases rule: redirected_entry)
      case same
      with True len Suc.IH [OF Suc.prems] show ?thesis by (simp split: op.splits)
    next
      case (branch c t f kt kf)
      with True len show ?thesis by simp
    qed
  qed
qed

lemma redirected_step:
  assumes c: "redirected ops0 ops" and i: "i < length ops" and g: "ops ! i = If_op cnd t f"
    and ft: "follow ops kt t = st" and ff: "follow ops kf f = sf"
    and nt: "\<not> jump_at ops st" and nf: "\<not> jump_at ops sf"
    and lt: "st < length ops" and lf: "sf < length ops"
    and ne: "st \<noteq> t \<or> sf \<noteq> f"
  shows "redirected ops0 (ops[i := If_op cnd st sf])" and "ops[i := If_op cnd st sf] \<noteq> ops0"
    and "ops0 ! i = If_op cnd t f"
proof -
  from c have len: "length ops = length ops0" by (rule redirected_length)
  from i len have i0: "i < length ops0" by simp
  from c i0 show orig: "ops0 ! i = If_op cnd t f"
  proof (cases rule: redirected_entry)
    case same
    with g show ?thesis by simp
  next
    case (branch c' t' f' kt' kf')
    with g have "\<not> jump_at ops0 t" "\<not> jump_at ops0 f" by auto
    with redirected_jump_at [OF c] have "\<not> jump_at ops t" "\<not> jump_at ops f" by simp_all
    then have "follow ops kt t = t" "follow ops kf f = f" by (simp_all add: follow_stop)
    with ft ff ne show ?thesis by simp
  qed
  from ft ff redirected_follow [OF c] have f0: "follow ops0 kt t = st" "follow ops0 kf f = sf"
    by simp_all
  from nt nf redirected_jump_at [OF c] have n0: "\<not> jump_at ops0 st" "\<not> jump_at ops0 sf"
    by simp_all
  show "redirected ops0 (ops[i := If_op cnd st sf])"
    unfolding redirected_def
  proof (intro conjI allI impI)
    show "length (ops[i := If_op cnd st sf]) = length ops0" using len by simp
  next
    fix j assume j: "j < length ops0"
    show "ops[i := If_op cnd st sf] ! j = ops0 ! j \<or>
        (\<exists>c t f kt kf. ops0 ! j = If_op c t f \<and>
           ops[i := If_op cnd st sf] ! j = If_op c (follow ops0 kt t) (follow ops0 kf f) \<and>
           (follow ops0 kt t \<noteq> t \<or> follow ops0 kf f \<noteq> f) \<and>
           \<not> jump_at ops0 (follow ops0 kt t) \<and> \<not> jump_at ops0 (follow ops0 kf f) \<and>
           follow ops0 kt t < length ops0 \<and> follow ops0 kf f < length ops0)"
    proof (cases "j = i")
      case True
      have "ops0 ! j = If_op cnd t f \<and>
           ops[i := If_op cnd st sf] ! j = If_op cnd (follow ops0 kt t) (follow ops0 kf f) \<and>
           (follow ops0 kt t \<noteq> t \<or> follow ops0 kf f \<noteq> f) \<and>
           \<not> jump_at ops0 (follow ops0 kt t) \<and> \<not> jump_at ops0 (follow ops0 kf f) \<and>
           follow ops0 kt t < length ops0 \<and> follow ops0 kf f < length ops0"
        using True orig f0 n0 ne lt lf len i by simp
      then show ?thesis by blast
    next
      case False
      with c j show ?thesis by (simp add: redirected_def)
    qed
  qed
  show "ops[i := If_op cnd st sf] \<noteq> ops0"
  proof
    assume "ops[i := If_op cnd st sf] = ops0"
    then have "ops[i := If_op cnd st sf] ! i = ops0 ! i" by simp
    with i orig ne show False by auto
  qed
qed

lemma jump_at_update_if:
  "i < length ops \<Longrightarrow> ops ! i = If_op c t f \<Longrightarrow>
   jump_at (ops[i := If_op c' t' f']) x = jump_at ops x"
  by (cases "x = i") (simp_all add: jump_at_def)

lemma settled_if_update:
  assumes "i < length ops" and "ops ! i = If_op c t f"
    and "st < length ops" and "sf < length ops"
    and "\<not> jump_at ops st" and "\<not> jump_at ops sf"
  shows "settled_if (ops[i := If_op c st sf]) i"
    and "settled_if ops j \<Longrightarrow> settled_if (ops[i := If_op c st sf]) j"
proof -
  note ja = jump_at_update_if [OF assms(1,2)]
  show "settled_if (ops[i := If_op c st sf]) i"
    using assms by (simp add: settled_if_def ja)
  show "settled_if (ops[i := If_op c st sf]) j" if "settled_if ops j"
  proof (cases "j = i")
    case True
    with assms show ?thesis by (simp add: settled_if_def ja)
  next
    case False
    with that show ?thesis by (simp add: settled_if_def ja)
  qed
qed

lemma if_step_inv:
  assumes step: "if_step rl m u bb = Inr (m', u')"
    and c: "redirected ops0 (instrs m)"
  shows "redirected ops0 (instrs m')"
    and "u = (instrs m \<noteq> ops0) \<Longrightarrow> u' = (instrs m' \<noteq> ops0)"
    and "settled_if (instrs m') (bb_end bb - 1)"
    and "settled_if (instrs m) j \<Longrightarrow> settled_if (instrs m') j"
proof -
  let ?i = "bb_end bb - 1"
  note sc = if_step_cases [OF step]
  from sc have i: "?i < length (instrs m)" by simp
  from sc have "instrs m' = instrs m \<and> u' = u \<and> settled_if (instrs m) ?i \<or>
      (\<exists>c t f st sf. instrs m ! ?i = If_op c t f \<and> 0 < rl \<and>
         follow (instrs m) (rl - 1) t = st \<and> follow (instrs m) (rl - 1) f = sf \<and>
         st < length (instrs m) \<and> sf < length (instrs m) \<and>
         \<not> jump_at (instrs m) st \<and> \<not> jump_at (instrs m) sf \<and> (st \<noteq> t \<or> sf \<noteq> f) \<and>
         instrs m' = (instrs m)[?i := If_op c st sf] \<and> u')" by simp
  then have "redirected ops0 (instrs m') \<and>
      (u = (instrs m \<noteq> ops0) \<longrightarrow> u' = (instrs m' \<noteq> ops0)) \<and>
      settled_if (instrs m') ?i \<and> (settled_if (instrs m) j \<longrightarrow> settled_if (instrs m') j)"
  proof
    assume "instrs m' = instrs m \<and> u' = u \<and> settled_if (instrs m) ?i"
    with c show ?thesis by simp
  next
    assume "\<exists>c t f st sf. instrs m ! ?i = If_op c t f \<and> 0 < rl \<and>
         follow (instrs m) (rl - 1) t = st \<and> follow (instrs m) (rl - 1) f = sf \<and>
         st < length (instrs m) \<and> sf < length (instrs m) \<and>
         \<not> jump_at (instrs m) st \<and> \<not> jump_at (instrs m) sf \<and> (st \<noteq> t \<or> sf \<noteq> f) \<and>
         instrs m' = (instrs m)[?i := If_op c st sf] \<and> u'"
    then obtain cnd t f st sf where g: "instrs m ! ?i = If_op cnd t f"
      and ft: "follow (instrs m) (rl - 1) t = st" and ff: "follow (instrs m) (rl - 1) f = sf"
      and lt: "st < length (instrs m)" and lf: "sf < length (instrs m)"
      and nt: "\<not> jump_at (instrs m) st" and nf: "\<not> jump_at (instrs m) sf"
      and ne: "st \<noteq> t \<or> sf \<noteq> f"
      and m': "instrs m' = (instrs m)[?i := If_op cnd st sf]" and u': "u'" by blast
    note cs = redirected_step [OF c i g ft ff nt nf lt lf ne]
    note su = settled_if_update [OF i g lt lf nt nf]
    from cs su m' u' show ?thesis by simp
  qed
  then show "redirected ops0 (instrs m')"
    and "u = (instrs m \<noteq> ops0) \<Longrightarrow> u' = (instrs m' \<noteq> ops0)"
    and "settled_if (instrs m') (bb_end bb - 1)"
    and "settled_if (instrs m) j \<Longrightarrow> settled_if (instrs m') j" by simp_all
qed

lemma if_scan_inv:
  "if_scan rl m u bbs = Inr (m', u') \<Longrightarrow> redirected ops0 (instrs m) \<Longrightarrow>
   redirected ops0 (instrs m') \<and>
   (u = (instrs m \<noteq> ops0) \<longrightarrow> u' = (instrs m' \<noteq> ops0)) \<and>
   trace m' = trace m \<and> basic_blocks m' = basic_blocks m \<and>
   (\<forall>j. settled_if (instrs m) j \<longrightarrow> settled_if (instrs m') j) \<and>
   (\<forall>bb \<in> set bbs. bb_end bb - 1 < length ops0 \<and> settled_if (instrs m') (bb_end bb - 1))"
proof (induction bbs arbitrary: m u)
  case Nil
  then show ?case by auto
next
  case (Cons bb bbs)
  from Cons.prems(1) obtain m1 u1 where
    step: "if_step rl m u bb = Inr (m1, u1)" and rest: "if_scan rl m1 u1 bbs = Inr (m', u')"
    by (auto split: sum.splits)
  note si = if_step_inv [OF step Cons.prems(2)]
  note sc = if_step_cases [OF step]
  note ih = Cons.IH [OF rest si(1)]
  have fl: "u' = (instrs m' \<noteq> ops0)" if "u = (instrs m \<noteq> ops0)"
    using si(2) [OF that] ih by simp
  have tr: "trace m' = trace m" "basic_blocks m' = basic_blocks m" using sc ih by simp_all
  have pres: "settled_if (instrs m') j" if "settled_if (instrs m) j" for j
    using si(4) [OF that] ih by simp
  have hd: "bb_end bb - 1 < length ops0 \<and> settled_if (instrs m') (bb_end bb - 1)"
    using sc si(3) ih redirected_length [OF Cons.prems(2)] by simp
  from ih tr pres hd fl show ?case by simp
qed






text \<open>Runs that come to an end without error\<close>

lemma redirected_chains_resolve:
  assumes c: "redirected ops0 ops" and r: "chains_resolve rl ops0"
  shows "chains_resolve rl ops"
proof -
  from c have len: "length ops = length ops0" by (rule redirected_length)
  from r have rl: "0 < rl" by (simp add: chains_resolve_def)
  have "d < length ops \<and> \<not> jump_at ops (follow ops (rl - 1) d)"
    if x: "x \<in> set ops" and d: "d \<in> set (targets x)" for x d
  proof -
    from x obtain j where j: "j < length ops" "x = ops ! j" by (auto simp: in_set_conv_nth)
    with len have j0: "j < length ops0" by simp
    from c j0 show ?thesis
    proof (cases rule: redirected_entry)
      case same
      with j d have "d \<in> set (targets (ops0 ! j))" by simp
      note D = chains_resolveD [OF r j0 this]
      from D len show ?thesis
        by (simp add: redirected_jump_at [OF c] redirected_follow [OF c])
    next
      case (branch cnd t f kt kf)
      with j d have dd: "d = follow ops0 kt t \<or> d = follow ops0 kf f" by auto
      with branch have nj: "\<not> jump_at ops d" and dl: "d < length ops0"
        by (auto simp: redirected_jump_at [OF c])
      from nj have "follow ops (rl - 1) d = d" by (rule follow_stop)
      with nj dl len show ?thesis by simp
    qed
  qed
  with rl show ?thesis by (simp add: chains_resolve_def list_all_iff)
qed

lemma if_step_total:
  assumes r: "chains_resolve rl (instrs m)" and wf: "wf_block (instrs m) bb"
  shows "\<exists>m' u'. if_step rl m u bb = Inr (m', u')"
proof -
  let ?i = "bb_end bb - 1"
  from wf have i: "?i < length (instrs m)" unfolding wf_block_def by arith
  note bl = bb_last_wf [OF wf]
  show ?thesis
  proof (cases "instrs m ! ?i")
    case (If_op c t f)
    then have "t \<in> set (targets (instrs m ! ?i))" "f \<in> set (targets (instrs m ! ?i))"
      by simp_all
    note T = chains_resolveD [OF r i this(1)] and F = chains_resolveD [OF r i this(2)]
    note ft = final_target_at_sink [OF T(1,3,4)] and ff = final_target_at_sink [OF F(1,3,4)]
    from bl If_op ft ff show ?thesis by (auto simp: if_step_def)
  qed (use bl in \<open>auto simp: if_step_def\<close>)
qed

lemma if_scan_total:
  "chains_resolve rl (instrs m) \<Longrightarrow> \<forall>bb \<in> set bbs. wf_block (instrs m) bb \<Longrightarrow>
   \<exists>m' u'. if_scan rl m u bbs = Inr (m', u') \<and> chains_resolve rl (instrs m') \<and>
     length (instrs m') = length (instrs m)"
proof (induction bbs arbitrary: m u)
  case Nil
  then show ?case by simp
next
  case (Cons bb bbs)
  from if_step_total [OF Cons.prems(1), of bb u] Cons.prems(2) obtain m1 u1 where
    step: "if_step rl m u bb = Inr (m1, u1)" by auto
  from if_step_inv(1) [OF step redirected_refl] have c: "redirected (instrs m) (instrs m1)" .
  from redirected_chains_resolve [OF c Cons.prems(1)] have r1: "chains_resolve rl (instrs m1)" .
  from c have len: "length (instrs m1) = length (instrs m)" by (rule redirected_length)
  with Cons.prems(2) have "\<forall>bb \<in> set bbs. wf_block (instrs m1) bb" by (simp add: wf_block_def)
  from Cons.IH [OF r1 this, of u1] step len show ?case by auto
qed

lemma if_loop_total:
  "wf_fin fin \<Longrightarrow> chains_resolve rl (instrs m) \<Longrightarrow>
   \<forall>bb \<in> set (basic_blocks m). wf_block (instrs m) bb \<Longrightarrow>
   \<exists>m'. if_loop rl fin n m = Inr m'"
proof (induction n arbitrary: m)
  case 0
  then show ?case by simp
next
  case (Suc n)
  from if_scan_total [OF Suc.prems(2,3), of False] obtain m1 u where
    scan: "if_scan rl m False (basic_blocks m) = Inr (m1, u)"
    and r1: "chains_resolve rl (instrs m1)" by blast
  let ?m2 = "generate_ssa_form (finalize fin (scan_done m1 True))"
  have i2: "instrs ?m2 = instrs m1"
    by (simp add: generate_ssa_form_def finalize_def scan_done_def)
  have "\<forall>bb \<in> set (basic_blocks ?m2). wf_block (instrs ?m2) bb"
    using Suc.prems(1) by (simp add: wf_fin_def generate_ssa_form_def finalize_def scan_done_def)
  moreover have "chains_resolve rl (instrs ?m2)" using r1 unfolding i2 .
  ultimately obtain m' where "if_loop rl fin n ?m2 = Inr m'"
    using Suc.IH [OF Suc.prems(1)] by blast
  with scan show ?case by (cases u) simp_all
qed

lemma pass_clear_if_total:
  assumes "ctx_mlil ctx = Some m" and "wf_fin fin" and "chains_resolve rl (instrs m)"
    and "\<forall>bb \<in> set (basic_blocks m). wf_block (instrs m) bb"
  shows "\<exists>ctx'. pass_clear_if rl fin ctx = Inr ctx'"
  using if_loop_total [OF assms(2,3,4), of "length (basic_blocks m)"] assms(1)
  by (auto simp: pass_clear_if_def)

text \<open>Chains that never end\<close>

lemma if_step_cycle:
  assumes c: "redirected ops0 (instrs m)" and g: "ops0 ! (bb_end bb - 1) = If_op cnd t f"
    and cyc: "(\<forall>k. jump_at ops0 (follow ops0 k t)) \<or> (\<forall>k. jump_at ops0 (follow ops0 k f))"
  shows "\<exists>e. if_step rl m u bb = Inl e"
proof (cases "bb_last m bb")
  case (Inl e)
  then show ?thesis by (simp add: if_step_def)
next
  case (Inr x)
  let ?i = "bb_end bb - 1"
  from bb_last_Inr [OF Inr] have x: "x = Instr ?i (instrs m ! ?i)" and i: "?i < length (instrs m)"
    by simp_all
  from i c have i0: "?i < length ops0" by (simp add: redirected_length)
  have cur: "instrs m ! ?i = If_op cnd t f"
    using c i0
  proof (cases rule: redirected_entry)
    case same
    with g show ?thesis by simp
  next
    case (branch c' t' f' kt kf)
    with g cyc show ?thesis by auto
  qed
  from cyc have "(\<forall>k. jump_at (instrs m) (follow (instrs m) k t)) \<or>
      (\<forall>k. jump_at (instrs m) (follow (instrs m) k f))"
    by (simp add: redirected_jump_at [OF c] redirected_follow [OF c])
  then have "final_target_at rl m t = Inl RecursionError \<or>
      final_target_at rl m f = Inl RecursionError"
    using final_target_at_cycle by blast
  with Inr x cur show ?thesis by (auto simp: if_step_def split: sum.splits)
qed

lemma if_scan_cycle:
  "bb \<in> set bbs \<Longrightarrow> redirected ops0 (instrs m) \<Longrightarrow> ops0 ! (bb_end bb - 1) = If_op cnd t f \<Longrightarrow>
   (\<forall>k. jump_at ops0 (follow ops0 k t)) \<or> (\<forall>k. jump_at ops0 (follow ops0 k f)) \<Longrightarrow>
   \<exists>e. if_scan rl m u bbs = Inl e"
proof (induction bbs arbitrary: m u)
  case Nil
  then show ?case by simp
next
  case (Cons b bbs)
  show ?case
  proof (cases "if_step rl m u b")
    case (Inl e)
    then show ?thesis by simp
  next
    case (Inr p)
    obtain m1 u1 where p: "p = (m1, u1)" by (cases p)
    with Inr have step: "if_step rl m u b = Inr (m1, u1)" by simp
    from if_step_cycle [OF Cons.prems(2,3,4), of rl u] step Cons.prems(1)
    have "bb \<in> set bbs" by auto
    from Cons.IH [OF this if_step_inv(1) [OF step Cons.prems(2)] Cons.prems(3,4), of u1] step
    show ?thesis by simp
  qed
qed

lemma pass_clear_if_cycle:
  assumes "ctx_mlil ctx = Some m" and "bb \<in> set (basic_blocks m)"
    and "instrs m ! (bb_end bb - 1) = If_op cnd t f"
    and "(\<forall>k. jump_at (instrs m) (follow (instrs m) k t)) \<or>
         (\<forall>k. jump_at (instrs m) (follow (instrs m) k f))"
  shows "\<exists>e. pass_clear_if rl fin ctx = Inl e"
proof -
  from assms(2) obtain n where n: "length (basic_blocks m) = Suc n"
    by (cases "basic_blocks m") auto
  from if_scan_cycle [OF assms(2) redirected_refl assms(3,4), of rl False] obtain e where
    "if_scan rl m False (basic_blocks m) = Inl e" by blast
  then have "if_loop rl fin (Suc n) m = Inl e" by simp
  with assms(1) n show ?thesis by (simp add: pass_clear_if_def)
qed

lemma if_scan_flag:
  "if_scan rl m False bbs = Inr (m', u') \<Longrightarrow> u' = (instrs m' \<noteq> instrs m)"
  using if_scan_inv [of rl m False bbs m' u' "instrs m"] by (simp add: redirected_refl)

subsection \<open>Rounds of the loops\<close>

lemma rounds_True:
  "calls logs = [] \<Longrightarrow> rounds n (calls es) \<Longrightarrow>
   rounds (Suc n) (calls (logs @ [ScanDone True, Finalize, GenerateSSA] @ es))"
  by (simp add: calls_def)

lemma rounds_False:
  "calls logs = [] \<Longrightarrow> rounds (Suc n) (calls (logs @ [ScanDone False, Finalize, GenerateSSA]))"
  by (simp add: calls_def)

lemma bounded_roundsI:
  "ctx_mlil ctx' = Some m' \<Longrightarrow> trace m' = trace m @ es \<Longrightarrow> rounds n (calls es) \<Longrightarrow>
   bounded_rounds n m ctx'"
  by (simp add: bounded_rounds_def)

lemma goto_scan_trace:
  "goto_scan rl m u bbs = Inr (m', u') \<Longrightarrow>
   \<exists>logs. trace m' = trace m @ logs \<and> calls logs = []"
  using goto_scan_inv [of rl m u bbs m' u' "instrs m"] by (simp add: compressed_refl)

lemma if_scan_trace:
  "if_scan rl m u bbs = Inr (m', u') \<Longrightarrow> trace m' = trace m"
  using if_scan_inv [of rl m u bbs m' u' "instrs m"] by (simp add: redirected_refl)

lemma const_if_loop_rounds:
  "const_if_loop fin n m = Inr m' \<Longrightarrow>
   \<exists>es. trace m' @ [Finalize, GenerateSSA] = trace m @ es \<and> rounds n (calls es)"
proof (induction n arbitrary: m)
  case 0
  then show ?case by (simp add: calls_def)
next
  case (Suc n)
  from Suc.prems obtain m1 u where
    scan: "const_if_scan m False (basic_blocks m) = Inr (m1, u)"
    by (auto split: sum.splits)
  from const_if_scan_Inr [OF scan] have tr: "trace m1 = trace m" by simp
  show ?case
  proof (cases u)
    case False
    with Suc.prems scan have "m' = scan_done m1 False" by simp
    with tr have "trace m' @ [Finalize, GenerateSSA] = trace m @ ([] @ [ScanDone False, Finalize, GenerateSSA])"
      by (simp add: scan_done_def)
    with rounds_False [of "[]" n] show ?thesis by (metis calls_Nil)
  next
    case True
    let ?m2 = "generate_ssa_form (finalize fin (scan_done m1 True))"
    from True Suc.prems scan have "const_if_loop fin n ?m2 = Inr m'" by simp
    from Suc.IH [OF this] obtain es where
      es: "trace m' @ [Finalize, GenerateSSA] = trace ?m2 @ es" "rounds n (calls es)" by blast
    have "trace ?m2 = trace m @ [] @ [ScanDone True, Finalize, GenerateSSA]"
      using tr by (simp add: generate_ssa_form_def finalize_def scan_done_def)
    with es have "trace m' @ [Finalize, GenerateSSA] =
        trace m @ ([] @ [ScanDone True, Finalize, GenerateSSA] @ es)" by simp
    with rounds_True [OF calls_Nil es(2)] show ?thesis by blast
  qed
qed

lemma goto_loop_rounds:
  "goto_loop rl fin n m = Inr m' \<Longrightarrow>
   \<exists>es. trace m' @ [Finalize, GenerateSSA] = trace m @ es \<and> rounds n (calls es)"
proof (induction n arbitrary: m)
  case 0
  then show ?case by (simp add: calls_def)
next
  case (Suc n)
  from Suc.prems obtain m1 u where
    scan: "goto_scan rl m False (basic_blocks m) = Inr (m1, u)"
    by (auto split: sum.splits)
  from goto_scan_trace [OF scan] obtain logs where
    logs: "trace m1 = trace m @ logs" "calls logs = []" by blast
  show ?case
  proof (cases u)
    case False
    with Suc.prems scan have "m' = scan_done m1 False" by simp
    with logs have "trace m' @ [Finalize, GenerateSSA] = trace m @ (logs @ [ScanDone False, Finalize, GenerateSSA])"
      by (simp add: scan_done_def)
    with rounds_False [OF logs(2), of n] show ?thesis by blast
  next
    case True
    let ?m2 = "generate_ssa_form (finalize fin (scan_done m1 True))"
    from True Suc.prems scan have "goto_loop rl fin n ?m2 = Inr m'" by simp
    from Suc.IH [OF this] obtain es where
      es: "trace m' @ [Finalize, GenerateSSA] = trace ?m2 @ es" "rounds n (calls es)" by blast
    have "trace ?m2 = trace m @ logs @ [ScanDone True, Finalize, GenerateSSA]"
      using logs by (simp add: generate_ssa_form_def finalize_def scan_done_def)
    with es have "trace m' @ [Finalize, GenerateSSA] =
        trace m @ (logs @ [ScanDone True, Finalize, GenerateSSA] @ es)" by simp
    with rounds_True [OF logs(2) es(2)] show ?thesis by blast
  qed
qed

lemma if_loop_rounds:
  "if_loop rl fin n m = Inr m' \<Longrightarrow>
   \<exists>es. trace m' @ [Finalize, GenerateSSA] = trace m @ es \<and> rounds n (calls es)"
proof (induction n arbitrary: m)
  case 0
  then show ?case by (simp add: calls_def)
next
  case (Suc n)
  from Suc.prems obtain m1 u where
    scan: "if_scan rl m False (basic_blocks m) = Inr (m1, u)"
    by (auto split: sum.splits)
  from if_scan_trace [OF scan] have tr: "trace m1 = trace m" by simp
  show ?case
  proof (cases u)
    case False
    with Suc.prems scan have "m' = scan_done m1 False" by simp
    with tr have "trace m' @ [Finalize, GenerateSSA] = trace m @ ([] @ [ScanDone False, Finalize, GenerateSSA])"
      by (simp add: scan_done_def)
    with rounds_False [of "[]" n] show ?thesis by (metis calls_Nil)
  next
    case True
    let ?m2 = "generate_ssa_form (finalize fin (scan_done m1 True))"
    from True Suc.prems scan have "if_loop rl fin n ?m2 = Inr m'" by simp
    from Suc.IH [OF this] obtain es where
      es: "trace m' @ [Finalize, GenerateSSA] = trace ?m2 @ es" "rounds n (calls es)" by blast
    have "trace ?m2 = trace m @ [] @ [ScanDone True, Finalize, GenerateSSA]"
      using tr by (simp add: generate_ssa_form_def finalize_def scan_done_def)
    with es have "trace m' @ [Finalize, GenerateSSA] =
        trace m @ ([] @ [ScanDone True, Finalize, GenerateSSA] @ es)" by simp
    with rounds_True [OF calls_Nil es(2)] show ?thesis by blast
  qed
qed

lemma foldl_append_facts:
  "instrs (foldl (\<lambda>m x. append_instr m (copy_expr x)) m xs) = instrs m @ map copy_expr xs \<and>
   basic_blocks (foldl (\<lambda>m x. append_instr m (copy_expr x)) m xs) = basic_blocks m \<and>
   trace (foldl (\<lambda>m x. append_instr m (copy_expr x)) m xs) = trace m"
  by (induction xs arbitrary: m) (simp_all add: append_instr_def)

lemma redirect_facts:
  "redirect m label first ps = Inr m2 \<Longrightarrow>
   length (instrs m2) = length (instrs m) \<and> basic_blocks m2 = basic_blocks m \<and>
   trace m2 = trace m"
  by (induction ps arbitrary: m) (auto simp: replace_expr_def split: op.splits if_splits)

lemma merge_block_facts:
  assumes "merge_block m xs ps = Inr (m', merged)"
  shows "(\<exists>logs. trace m' = trace m @ logs \<and> calls logs = []) \<and>
     basic_blocks m' = basic_blocks m \<and>
     (if merged then length (instrs m) < length (instrs m') else instrs m' = instrs m)"
proof (cases "list_all (\<lambda>instr. is_goto instr \<or> is_if instr) ps")
  case False
  with assms have "m' = log_error m ps" "\<not> merged" by (simp_all add: merge_block_def)
  moreover have "calls [LogError ps] = []" by (simp add: calls_def)
  ultimately show ?thesis by (auto simp: log_error_def)
next
  case True
  show ?thesis
  proof (cases "xs = []")
    case Nil: True
    with True assms show ?thesis by (simp add: merge_block_def)
  next
    case False
    let ?m1 = "foldl (\<lambda>m x. append_instr m (copy_expr x)) m xs"
    from True False assms obtain m2 where
      r: "redirect ?m1 (mark_label m) (instr_index (hd xs)) ps = Inr m2" and
      m': "m' = m2" "merged"
      by (auto simp: merge_block_def Let_def split: sum.splits)
    from redirect_facts [OF r] foldl_append_facts [of m xs] False m' show ?thesis
      by simp
  qed
qed

lemma merge_step_facts:
  assumes "merge_step inc m b = Inr (m', merged)"
  shows "(\<exists>logs. trace m' = trace m @ logs \<and> calls logs = []) \<and>
     basic_blocks m' = basic_blocks m \<and>
     (if merged then length (instrs m) < length (instrs m') else instrs m' = instrs m)"
  using merge_step_cases [OF assms] merge_block_facts [of m _ _ m' merged] by fastforce

lemma merge_scan_facts:
  "merge_scan inc m bs = Inr (m', u) \<Longrightarrow>
   (\<exists>logs. trace m' = trace m @ logs \<and> calls logs = []) \<and>
   (if u then length (instrs m) < length (instrs m') else instrs m' = instrs m)"
proof (induction bs arbitrary: m)
  case Nil
  then show ?case by auto
next
  case (Cons b bs)
  from Cons.prems obtain m1 merged where step: "merge_step inc m b = Inr (m1, merged)"
    by (auto split: sum.splits)
  note f = merge_step_facts [OF step]
  show ?case
  proof (cases merged)
    case True
    with Cons.prems step have "m' = m1" "u" by simp_all
    with f True show ?thesis by simp
  next
    case False
    with Cons.prems step have rest: "merge_scan inc m1 bs = Inr (m', u)" by simp
    from f False obtain l1 where l1: "trace m1 = trace m @ l1" "calls l1 = []"
      and i1: "instrs m1 = instrs m" by auto
    from Cons.IH [OF rest] obtain l2 where l2: "trace m' = trace m1 @ l2" "calls l2 = []"
      and i2: "if u then length (instrs m1) < length (instrs m') else instrs m' = instrs m1"
      by auto
    from l1 l2 have "trace m' = trace m @ (l1 @ l2) \<and> calls (l1 @ l2) = []" by simp
    then have "\<exists>logs. trace m' = trace m @ logs \<and> calls logs = []" by blast
    with i1 i2 show ?thesis by (cases u) simp_all
  qed
qed

lemma merge_scan_flag:
  "merge_scan inc m bs = Inr (m', u) \<Longrightarrow> u = (instrs m' \<noteq> instrs m)"
  using merge_scan_facts [of inc m bs m' u] by (cases u) auto

lemma merge_loop_rounds:
  "merge_loop fin inc n m = Inr m' \<Longrightarrow>
   \<exists>es. trace m' @ [Finalize, GenerateSSA] = trace m @ es \<and> rounds n (calls es)"
proof (induction n arbitrary: m)
  case 0
  then show ?case by (simp add: calls_def)
next
  case (Suc n)
  from Suc.prems obtain m1 u where
    scan: "merge_scan inc m (basic_blocks m) = Inr (m1, u)"
    by (auto split: sum.splits)
  from merge_scan_facts [OF scan] obtain logs where
    logs: "trace m1 = trace m @ logs" "calls logs = []" by blast
  show ?case
  proof (cases u)
    case False
    with Suc.prems scan have "m' = scan_done m1 False" by simp
    with logs have "trace m' @ [Finalize, GenerateSSA] = trace m @ (logs @ [ScanDone False, Finalize, GenerateSSA])"
      by (simp add: scan_done_def)
    with rounds_False [OF logs(2), of n] show ?thesis by blast
  next
    case True
    let ?m2 = "generate_ssa_form (finalize fin (scan_done m1 True))"
    from True Suc.prems scan have "merge_loop fin inc n ?m2 = Inr m'" by simp
    from Suc.IH [OF this] obtain es where
      es: "trace m' @ [Finalize, GenerateSSA] = trace ?m2 @ es" "rounds n (calls es)" by blast
    have "trace ?m2 = trace m @ logs @ [ScanDone True, Finalize, GenerateSSA]"
      using logs by (simp add: generate_ssa_form_def finalize_def scan_done_def)
    with es have "trace m' @ [Finalize, GenerateSSA] =
        trace m @ (logs @ [ScanDone True, Finalize, GenerateSSA] @ es)" by simp
    with rounds_True [OF logs(2) es(2)] show ?thesis by blast
  qed
qed

lemma pass_clear_const_if_rounds:
  assumes "ctx_mlil ctx = Some m" and "pass_clear_const_if fin ctx = Inr ctx'"
  shows "bounded_rounds (length (basic_blocks m)) m ctx'"
proof -
  from assms obtain m1 where loop: "const_if_loop fin (length (basic_blocks m)) m = Inr m1"
    and ctx': "ctx' = ctx\<lparr>ctx_mlil := Some (generate_ssa_form (finalize fin m1))\<rparr>"
    by (auto simp: pass_clear_const_if_def split: sum.splits)
  from const_if_loop_rounds [OF loop] obtain es where
    es: "trace m1 @ [Finalize, GenerateSSA] = trace m @ es" "rounds (length (basic_blocks m)) (calls es)"
    by blast
  have "trace (generate_ssa_form (finalize fin m1)) = trace m @ es"
    using es(1) by (simp add: generate_ssa_form_def finalize_def)
  with ctx' es(2) show ?thesis by (intro bounded_roundsI [where es = es]) simp_all
qed

lemma pass_clear_goto_rounds:
  assumes "ctx_mlil ctx = Some m" and "pass_clear_goto rl fin ctx = Inr ctx'"
  shows "bounded_rounds (length (basic_blocks m)) m ctx'"
proof -
  from assms obtain m1 where loop: "goto_loop rl fin (length (basic_blocks m)) m = Inr m1"
    and ctx': "ctx' = ctx\<lparr>ctx_mlil := Some (generate_ssa_form (finalize fin m1))\<rparr>"
    by (auto simp: pass_clear_goto_def split: sum.splits)
  from goto_loop_rounds [OF loop] obtain es where
    es: "trace m1 @ [Finalize, GenerateSSA] = trace m @ es" "rounds (length (basic_blocks m)) (calls es)"
    by blast
  have "trace (generate_ssa_form (finalize fin m1)) = trace m @ es"
    using es(1) by (simp add: generate_ssa_form_def finalize_def)
  with ctx' es(2) show ?thesis by (intro bounded_roundsI [where es = es]) simp_all
qed

lemma pass_clear_if_rounds:
  assumes "ctx_mlil ctx = Some m" and "pass_clear_if rl fin ctx = Inr ctx'"
  shows "bounded_rounds (length (basic_blocks m)) m ctx'"
proof -
  from assms obtain m1 where loop: "if_loop rl fin (length (basic_blocks m)) m = Inr m1"
    and ctx': "ctx' = ctx\<lparr>ctx_mlil := Some (generate_ssa_form (finalize fin m1))\<rparr>"
    by (auto simp: pass_clear_if_def split: sum.splits)
  from if_loop_rounds [OF loop] obtain es where
    es: "trace m1 @ [Finalize, GenerateSSA] = trace m @ es" "rounds (length (basic_blocks m)) (calls es)"
    by blast
  have "trace (generate_ssa_form (finalize fin m1)) = trace m @ es"
    using es(1) by (simp add: generate_ssa_form_def finalize_def)
  with ctx' es(2) show ?thesis by (intro bounded_roundsI [where es = es]) simp_all
qed

lemma pass_merge_block_rounds:
  assumes "ctx_mlil ctx = Some m" and "pass_merge_block fin inc ctx = Inr ctx'"
  shows "bounded_rounds (length (basic_blocks m) * 2) m ctx'"
proof -
  from assms obtain m1 where loop: "merge_loop fin inc (length (basic_blocks m) * 2) m = Inr m1"
    and ctx': "ctx' = ctx\<lparr>ctx_mlil := Some (generate_ssa_form (finalize fin m1))\<rparr>"
    by (auto simp: pass_merge_block_def split: sum.splits)
  from merge_loop_rounds [OF loop] obtain es where
    es: "trace m1 @ [Finalize, GenerateSSA] = trace m @ es"
      "rounds (length (basic_blocks m) * 2) (calls es)"
    by blast
  have "trace (generate_ssa_form (finalize fin m1)) = trace m @ es"
    using es(1) by (simp add: generate_ssa_form_def finalize_def)
  with ctx' es(2) show ?thesis by (intro bounded_roundsI [where es = es]) simp_all
qed

lemma pass_clear_const_if_total:
  assumes "ctx_mlil ctx = Some m" and "wf_fin fin"
    and "\<forall>bb \<in> set (basic_blocks m). wf_block (instrs m) bb"
  shows "\<exists>ctx'. pass_clear_const_if fin ctx = Inr ctx'"
  using const_if_loop_wf [OF assms(2,3), of "length (basic_blocks m)"] assms(1)
  by (auto simp: pass_clear_const_if_def)

lemma chains_resolveI:
  assumes "0 < rl"
    and "\<forall>x \<in> set ops. \<forall>d \<in> set (targets x).
           d < length ops \<and> (\<exists>k < rl. \<not> jump_at ops (follow ops k d))"
  shows "chains_resolve rl ops"
proof -
  have "\<not> jump_at ops (follow ops (rl - 1) d)"
    if "k < rl" and "\<not> jump_at ops (follow ops k d)" for k d
  proof -
    from that(1) have "k \<le> rl - 1" by simp
    from follow_sink_le [OF that(2) this] that(2) show ?thesis by simp
  qed
  with assms show ?thesis unfolding chains_resolve_def list_all_iff by blast
qed

subsection \<open>The jump-chain compressor\<close>

lemma goto_step_sink:
  assumes bl: "bb_last m bb = Inr (Instr i (Goto d))" and k: "k < rl"
    and f: "follow (instrs m) k d = s" and s: "s < length (instrs m)"
    and nj: "\<not> jump_at (instrs m) s"
  shows "\<exists>m1. goto_step rl m u bb = Inr (m1, u \<or> s \<noteq> d) \<and>
     instrs m1 = (if s \<noteq> d then (instrs m)[i := Goto s] else instrs m) \<and>
     basic_blocks m1 = basic_blocks m"
proof -
  from k obtain n where n: "rl = Suc n" by (cases rl) auto
  with k have "k \<le> n" by simp
  from follow_sink_le [OF _ this, of "instrs m" d] nj f have fn: "follow (instrs m) n d = s"
    by simp
  from optimize_goto_Suc [of n m i d] obtain m' where
    og: "optimize_goto rl m (Instr i (Goto d)) = Inr (Instr s (instrs m ! s), m')"
    and m': "instrs m' = instrs m" "basic_blocks m' = basic_blocks m"
    unfolding n fn using nj s by auto
  show ?thesis
  proof (cases "s = d")
    case True
    with bl og m' show ?thesis by (simp add: goto_step_def)
  next
    case False
    with bl og m' show ?thesis by (simp add: goto_step_def replace_expr_def)
  qed
qed

text \<open>
  C5. When \<^verbatim>\<open>pass_clear_goto\<close> has run, every block of the function whose terminator
  was an unconditional jump to \<open>d\<close> ends in a jump to the sink of the chain that starts at
  \<open>d\<close>: the first instruction on the chain of jumps from \<open>d\<close> that is no unconditional
  jump. Where the sink is \<open>d\<close> itself this is the terminator as it was. Every instruction
  that was no unconditional jump is what it was. The pass runs to its end when the blocks
  lie inside the function and every chain reaches its sink within the recursion limit. At
  one block, the pass writes the jump to the sink \<open>s\<close> and reports an update when \<open>s\<close>
  differs from \<open>d\<close>, and leaves function and report as they are when \<open>s\<close> is \<open>d\<close>.
\<close>

theorem pass_clear_goto_compresses_chains:
  assumes "ctx_mlil ctx = Some m"
  shows "(\<forall>ctx'. pass_clear_goto rl fin ctx = Inr ctx' \<longrightarrow>
           (\<exists>m'. ctx' = ctx\<lparr>ctx_mlil := Some m'\<rparr> \<and>
              length (instrs m') = length (instrs m) \<and>
              (\<forall>bb \<in> set (basic_blocks m). \<forall>d. instrs m ! (bb_end bb - 1) = Goto d \<longrightarrow>
                 (\<exists>k. follow (instrs m) k d < length (instrs m) \<and>
                      \<not> jump_at (instrs m) (follow (instrs m) k d) \<and>
                      instrs m' ! (bb_end bb - 1) = Goto (follow (instrs m) k d))) \<and>
              (\<forall>j < length (instrs m). (\<forall>d. instrs m ! j \<noteq> Goto d) \<longrightarrow>
                 instrs m' ! j = instrs m ! j))) \<and>
         (wf_fin fin \<and> (\<forall>bb \<in> set (basic_blocks m). wf_block (instrs m) bb) \<and>
          chains_resolve rl (instrs m) \<longrightarrow>
            (\<exists>ctx'. pass_clear_goto rl fin ctx = Inr ctx')) \<and>
         (\<forall>bb i d k s updated.
            bb_last m bb = Inr (Instr i (Goto d)) \<and> k < rl \<and> follow (instrs m) k d = s \<and>
            s < length (instrs m) \<and> \<not> jump_at (instrs m) s \<longrightarrow>
            (\<exists>m1. goto_step rl m updated bb = Inr (m1, updated \<or> s \<noteq> d) \<and>
               instrs m1 = (if s \<noteq> d then (instrs m)[i := Goto s] else instrs m) \<and>
               basic_blocks m1 = basic_blocks m))"
proof (intro conjI allI impI)
  fix ctx' assume r: "pass_clear_goto rl fin ctx = Inr ctx'"
  from pass_clear_goto_Inr [OF assms r] obtain m' where
    ctx': "ctx' = ctx\<lparr>ctx_mlil := Some m'\<rparr>" and c: "compressed (instrs m) (instrs m')"
    and st: "\<forall>bb \<in> set (basic_blocks m).
        bb_end bb - 1 < length (instrs m) \<and> settled (instrs m') (bb_end bb - 1)"
    by blast
  have "\<exists>k. follow (instrs m) k d < length (instrs m) \<and>
          \<not> jump_at (instrs m) (follow (instrs m) k d) \<and>
          instrs m' ! (bb_end bb - 1) = Goto (follow (instrs m) k d)"
    if "bb \<in> set (basic_blocks m)" and "instrs m ! (bb_end bb - 1) = Goto d" for bb d
    using compressed_settled_jump [OF c _ _ that(2)] st that(1) by blast
  moreover have "instrs m' ! j = instrs m ! j"
    if "j < length (instrs m)" and "\<forall>d. instrs m ! j \<noteq> Goto d" for j
    using compressed_other [OF c that] .
  ultimately show "\<exists>m'. ctx' = ctx\<lparr>ctx_mlil := Some m'\<rparr> \<and>
      length (instrs m') = length (instrs m) \<and>
      (\<forall>bb \<in> set (basic_blocks m). \<forall>d. instrs m ! (bb_end bb - 1) = Goto d \<longrightarrow>
         (\<exists>k. follow (instrs m) k d < length (instrs m) \<and>
              \<not> jump_at (instrs m) (follow (instrs m) k d) \<and>
              instrs m' ! (bb_end bb - 1) = Goto (follow (instrs m) k d))) \<and>
      (\<forall>j < length (instrs m). (\<forall>d. instrs m ! j \<noteq> Goto d) \<longrightarrow>
         instrs m' ! j = instrs m ! j)"
    using ctx' compressed_length [OF c] by blast
next
  assume "wf_fin fin \<and> (\<forall>bb \<in> set (basic_blocks m). wf_block (instrs m) bb) \<and>
      chains_resolve rl (instrs m)"
  then show "\<exists>ctx'. pass_clear_goto rl fin ctx = Inr ctx'"
    using pass_clear_goto_total [OF assms] by blast
next
  fix bb i d k s updated
  assume "bb_last m bb = Inr (Instr i (Goto d)) \<and> k < rl \<and> follow (instrs m) k d = s \<and>
      s < length (instrs m) \<and> \<not> jump_at (instrs m) s"
  then show "\<exists>m1. goto_step rl m updated bb = Inr (m1, updated \<or> s \<noteq> d) \<and>
      instrs m1 = (if s \<noteq> d then (instrs m)[i := Goto s] else instrs m) \<and>
      basic_blocks m1 = basic_blocks m"
    using goto_step_sink by blast
qed

theorem pass_clear_goto_compresses_chains_witness:
  "\<exists>m' m1.
     pass_clear_goto 1000 leader_blocks \<lparr>ctx_mlil = Some chain_example, ctx_function_mlil = None\<rparr> =
       Inr \<lparr>ctx_mlil = Some m', ctx_function_mlil = None\<rparr> \<and>
     instrs m' ! 0 = Goto 2 \<and> instrs m' ! 1 = Goto 2 \<and> instrs m' ! 2 = Ret 0 \<and>
     length (instrs m') = 3 \<and>
     goto_step 1000 chain_example False (Block 0 1) = Inr (m1, True) \<and>
     instrs m1 = [Goto 2, Goto 2, Ret 0]"
proof -
  let ?ctx = "\<lparr>ctx_mlil = Some chain_example, ctx_function_mlil = None\<rparr>"
  let ?ops = "instrs chain_example"
  have h1: "ctx_mlil ?ctx = Some chain_example" by simp
  note T = pass_clear_goto_compresses_chains [OF h1, of 1000 leader_blocks]
  have ops: "?ops = [Goto 1, Goto 2, Ret 0]" by (simp add: chain_example_def)
  have bbs: "basic_blocks chain_example = [Block 0 1, Block 1 2, Block 2 3]"
    by (simp add: chain_example_def)
  have wf: "\<forall>bb \<in> set (basic_blocks chain_example). wf_block ?ops bb"
    by (simp add: chain_example_def wf_block_def)
  have nj: "\<not> jump_at ?ops 2" by (simp add: ops jump_at_def)
  have f1: "follow ?ops (Suc 0) 1 = 2" by (simp add: ops)
  have f2: "follow ?ops (Suc 0) 2 = 2" by (simp add: ops)
  have cr: "chains_resolve 1000 ?ops"
  proof (rule chains_resolveI)
    show "\<forall>x \<in> set ?ops. \<forall>d \<in> set (targets x).
        d < length ?ops \<and> (\<exists>k < 1000. \<not> jump_at ?ops (follow ?ops k d))"
    proof (intro ballI conjI)
      fix x d assume "x \<in> set ?ops" "d \<in> set (targets x)"
      then have d: "d = 1 \<or> d = 2" by (auto simp: ops)
      then show "d < length ?ops" by (auto simp: ops)
      from d nj f1 f2 have "\<not> jump_at ?ops (follow ?ops (Suc 0) d)"
        by (elim disjE) (simp_all only:, simp_all only: not_False_eq_True)
      then show "\<exists>k < 1000. \<not> jump_at ?ops (follow ?ops k d)" by (intro exI [of _ "Suc 0"]) simp
    qed
  qed simp
  from T leader_blocks_wf wf cr obtain ctx' where
    r: "pass_clear_goto 1000 leader_blocks ?ctx = Inr ctx'" by blast
  with T obtain m' where ctx': "ctx' = ?ctx\<lparr>ctx_mlil := Some m'\<rparr>"
    and len: "length (instrs m') = length ?ops"
    and blocks: "\<forall>bb \<in> set (basic_blocks chain_example). \<forall>d. ?ops ! (bb_end bb - 1) = Goto d \<longrightarrow>
       (\<exists>k. follow ?ops k d < length ?ops \<and> \<not> jump_at ?ops (follow ?ops k d) \<and>
            instrs m' ! (bb_end bb - 1) = Goto (follow ?ops k d))"
    and other: "\<forall>j < length ?ops. (\<forall>d. ?ops ! j \<noteq> Goto d) \<longrightarrow> instrs m' ! j = ?ops ! j"
    by blast
  have sink: "follow ?ops k d = 2" if "d = 1 \<or> d = 2" and "\<not> jump_at ?ops (follow ?ops k d)" for k d
  proof -
    from that(1) f1 f2 have e: "follow ?ops (Suc 0) d = 2" by (elim disjE) (simp_all only:)
    with nj have "\<not> jump_at ?ops (follow ?ops (Suc 0) d)" "follow ?ops (Suc 0) d = 2"
      by (simp_all only: not_False_eq_True)
    with follow_sink_unique [OF that(2) this(1)] show ?thesis by simp
  qed
  have b0: "Block 0 1 \<in> set (basic_blocks chain_example)"
    and b1: "Block 1 2 \<in> set (basic_blocks chain_example)" by (simp_all add: bbs)
  have t0: "?ops ! (bb_end (Block 0 1) - 1) = Goto 1"
    and t1: "?ops ! (bb_end (Block 1 2) - 1) = Goto 2" by (simp_all add: ops)
  from blocks b0 t0 obtain k0 where "\<not> jump_at ?ops (follow ?ops k0 1)"
    "instrs m' ! (bb_end (Block 0 1) - 1) = Goto (follow ?ops k0 1)" by blast
  with sink [of 1 k0] have i0: "instrs m' ! 0 = Goto 2" by simp
  from blocks b1 t1 obtain k1 where "\<not> jump_at ?ops (follow ?ops k1 2)"
    "instrs m' ! (bb_end (Block 1 2) - 1) = Goto (follow ?ops k1 2)" by blast
  with sink [of 2 k1] have i1: "instrs m' ! 1 = Goto 2" by simp
  from other have i2: "instrs m' ! 2 = Ret 0" by (simp add: ops)
  have bl: "bb_last chain_example (Block 0 1) = Inr (Instr 0 (Goto 1))"
    by (simp add: chain_example_def bb_last_def getitem_def)
  have "bb_last chain_example (Block 0 1) = Inr (Instr 0 (Goto 1)) \<and> Suc 0 < 1000 \<and>
      follow ?ops (Suc 0) 1 = 2 \<and> 2 < length ?ops \<and> \<not> jump_at ?ops 2"
    using bl f1 nj by (simp add: ops)
  from T [THEN conjunct2, THEN conjunct2, rule_format, OF this, of False] obtain m1 where
    "goto_step 1000 chain_example False (Block 0 1) = Inr (m1, False \<or> (2::nat) \<noteq> 1)"
    "instrs m1 = (if (2::nat) \<noteq> 1 then ?ops[0 := Goto 2] else ?ops)"
    by blast
  then have s: "goto_step 1000 chain_example False (Block 0 1) = Inr (m1, True)"
    "instrs m1 = [Goto 2, Goto 2, Ret 0]" by (simp_all add: ops)
  from r ctx' i0 i1 i2 len s show ?thesis by (auto simp: ops)
qed

subsection \<open>The branch-target redirector\<close>




subsection \<open>Chains and the recursion limit\<close>

lemma optimize_goto_limit:
  assumes "jump_at (instrs m) (follow (instrs m) (rl - 1) d)"
  shows "optimize_goto rl m (Instr i (Goto d)) = Inl RecursionError"
proof (cases rl)
  case 0
  then show ?thesis by simp
next
  case (Suc n)
  with assms optimize_goto_Suc [of n m i d] show ?thesis by auto
qed

lemma optimize_goto_sink:
  assumes k: "k < rl" and f: "follow (instrs m) k d = s" and s: "s < length (instrs m)"
    and nj: "\<not> jump_at (instrs m) s"
  shows "\<exists>m'. optimize_goto rl m (Instr i (Goto d)) = Inr (Instr s (instrs m ! s), m') \<and>
     instrs m' = instrs m \<and> basic_blocks m' = basic_blocks m"
proof -
  from k obtain n where n: "rl = Suc n" by (cases rl) auto
  with k have "k \<le> n" by simp
  from follow_sink_le [OF _ this, of "instrs m" d] nj f have fn: "follow (instrs m) n d = s"
    by simp
  from optimize_goto_Suc [of n m i d] show ?thesis unfolding n fn using nj s by auto
qed

lemma final_target_at_limit:
  assumes "jump_at (instrs m) (follow (instrs m) (rl - 1) d)"
    and "follow (instrs m) rl d < length (instrs m)"
  shows "final_target_at rl m d = Inl RecursionError"
  using assms unfolding final_target_at_result by simp

lemma final_target_at_reaches:
  assumes k: "k < rl" and f: "follow (instrs m) k d = s" and s: "s < length (instrs m)"
    and nj: "\<not> jump_at (instrs m) s"
  shows "final_target_at rl m d = Inr (Instr s (instrs m ! s))"
proof -
  from k have rl: "0 < rl" and k': "k \<le> rl - 1" by simp_all
  from follow_sink_le [OF _ k', of "instrs m" d] nj f
  have t: "follow (instrs m) (rl - 1) d = s" by simp
  from final_target_at_sink [OF rl, of m d] nj s t show ?thesis by simp
qed

lemma cycle_example_jumps:
  "jump_at (instrs cycle_example) (follow (instrs cycle_example) k 1) \<and>
   jump_at (instrs cycle_example) (follow (instrs cycle_example) k 2)"
  by (induction k) (simp_all add: cycle_example_def jump_at_def)

text \<open>
  C1, as stated, fails: on two jumps that point at each other \<^verbatim>\<open>optimize_goto\<close> and
  \<^verbatim>\<open>get_final_target\<close> recurse until the interpreter's recursion limit (here the
  default, 1000 nested calls) ends them with \<^verbatim>\<open>RecursionError\<close>, and the error ends
  \<^verbatim>\<open>pass_clear_goto\<close> and \<^verbatim>\<open>pass_clear_if\<close>: the cycle is not detected, the
  terminator is not left as a reported anomaly, the pass does not run to its end.
\<close>

theorem cyclic_chain_raises_recursion_error:
  "optimize_goto 1000 cycle_example (Instr 1 (Goto 2)) = Inl RecursionError \<and>
   final_target_at 1000 cycle_example 1 = Inl RecursionError \<and>
   pass_clear_goto 1000 leader_blocks \<lparr>ctx_mlil = Some cycle_example, ctx_function_mlil = None\<rparr> =
     Inl RecursionError \<and>
   pass_clear_if 1000 leader_blocks \<lparr>ctx_mlil = Some cycle_example, ctx_function_mlil = None\<rparr> =
     Inl RecursionError"
proof -
  have og: "optimize_goto 1000 cycle_example (Instr 1 (Goto 2)) = Inl RecursionError"
    using cycle_example_jumps by (intro optimize_goto_limit) blast
  have ft: "final_target_at 1000 cycle_example 1 = Inl RecursionError"
    using cycle_example_jumps by (intro final_target_at_cycle) blast
  have bbs: "basic_blocks cycle_example = [Block 0 1, Block 1 2, Block 2 3]"
    by (simp add: cycle_example_def)
  have l0: "bb_last cycle_example (Block 0 1) = Inr (Instr 0 (If_op (Var 0) 1 2))"
    and l1: "bb_last cycle_example (Block 1 2) = Inr (Instr 1 (Goto 2))"
    by (simp_all add: cycle_example_def bb_last_def getitem_def)
  have "goto_step 1000 cycle_example False (Block 0 1) = Inr (cycle_example, False)"
    using l0 by (simp add: goto_step_def)
  moreover have "goto_step 1000 cycle_example False (Block 1 2) = Inl RecursionError"
    using l1 og by (simp add: goto_step_def)
  ultimately have "goto_scan 1000 cycle_example False (basic_blocks cycle_example) =
      Inl RecursionError"
    unfolding bbs by simp
  then have "goto_loop 1000 leader_blocks (Suc (Suc (Suc 0))) cycle_example = Inl RecursionError"
    by simp
  then have pg: "pass_clear_goto 1000 leader_blocks
      \<lparr>ctx_mlil = Some cycle_example, ctx_function_mlil = None\<rparr> = Inl RecursionError"
    by (simp add: pass_clear_goto_def bbs)
  have "if_step 1000 cycle_example False (Block 0 1) = Inl RecursionError"
    using l0 ft by (simp add: if_step_def)
  then have "if_scan 1000 cycle_example False (basic_blocks cycle_example) = Inl RecursionError"
    unfolding bbs by simp
  then have "if_loop 1000 leader_blocks (Suc (Suc (Suc 0))) cycle_example = Inl RecursionError"
    by simp
  then have pi: "pass_clear_if 1000 leader_blocks
      \<lparr>ctx_mlil = Some cycle_example, ctx_function_mlil = None\<rparr> = Inl RecursionError"
    by (simp add: pass_clear_if_def bbs)
  from og ft pg pi show ?thesis by simp
qed

text \<open>
  C1, amended. The chain-following procedures keep no record of the instructions they have
  seen and detect no cycle: they follow the chain of jumps from \<open>d\<close> for as many nested
  calls as the recursion limit \<open>rl\<close> leaves room for. When the chain reaches its sink, an
  instruction of the function that is no unconditional jump, after fewer than \<open>rl\<close>
  jumps, they return the sink. When the chain is still at a jump after \<open>rl - 1\<close> steps,
  be it long or cyclic, they raise \<^verbatim>\<open>RecursionError\<close> (\<^verbatim>\<open>get_final_target\<close> looks
  up the next instruction first, and so needs the jump's target to lie inside the
  function). A chain that cycles never reaches a sink: both procedures raise
  \<^verbatim>\<open>RecursionError\<close> on it at every recursion limit, \<^verbatim>\<open>pass_clear_goto\<close> ends with an
  error on every function that has a block whose jump starts such a chain, and
  \<^verbatim>\<open>pass_clear_if\<close> on every function that has a block whose branch has an arm that
  starts one.
\<close>

theorem chain_following_bounded_by_recursion_limit:
  "(jump_at (instrs m) (follow (instrs m) (rl - 1) d) \<longrightarrow>
      optimize_goto rl m (Instr i (Goto d)) = Inl RecursionError) \<and>
   (jump_at (instrs m) (follow (instrs m) (rl - 1) d) \<and>
    follow (instrs m) rl d < length (instrs m) \<longrightarrow>
      final_target_at rl m d = Inl RecursionError) \<and>
   (\<forall>k s. k < rl \<and> follow (instrs m) k d = s \<and> s < length (instrs m) \<and>
          \<not> jump_at (instrs m) s \<longrightarrow>
      (\<exists>m'. optimize_goto rl m (Instr i (Goto d)) = Inr (Instr s (instrs m ! s), m') \<and>
            instrs m' = instrs m \<and> basic_blocks m' = basic_blocks m) \<and>
      final_target_at rl m d = Inr (Instr s (instrs m ! s))) \<and>
   ((\<forall>k. jump_at (instrs m) (follow (instrs m) k d)) \<longrightarrow>
      optimize_goto rl m (Instr i (Goto d)) = Inl RecursionError \<and>
      final_target_at rl m d = Inl RecursionError \<and>
      (\<forall>ctx fin bb. ctx_mlil ctx = Some m \<and> bb \<in> set (basic_blocks m) \<and>
          instrs m ! (bb_end bb - 1) = Goto d \<longrightarrow>
          (\<exists>e. pass_clear_goto rl fin ctx = Inl e)) \<and>
      (\<forall>ctx fin bb c t f. ctx_mlil ctx = Some m \<and> bb \<in> set (basic_blocks m) \<and>
          instrs m ! (bb_end bb - 1) = If_op c t f \<and> (t = d \<or> f = d) \<longrightarrow>
          (\<exists>e. pass_clear_if rl fin ctx = Inl e)))"
proof (intro conjI allI impI)
  assume "jump_at (instrs m) (follow (instrs m) (rl - 1) d)"
  then show "optimize_goto rl m (Instr i (Goto d)) = Inl RecursionError"
    by (rule optimize_goto_limit)
next
  assume "jump_at (instrs m) (follow (instrs m) (rl - 1) d) \<and>
      follow (instrs m) rl d < length (instrs m)"
  then show "final_target_at rl m d = Inl RecursionError"
    using final_target_at_limit by blast
next
  fix k s
  assume "k < rl \<and> follow (instrs m) k d = s \<and> s < length (instrs m) \<and>
      \<not> jump_at (instrs m) s"
  then show "\<exists>m'. optimize_goto rl m (Instr i (Goto d)) = Inr (Instr s (instrs m ! s), m') \<and>
      instrs m' = instrs m \<and> basic_blocks m' = basic_blocks m"
    using optimize_goto_sink [of k rl m d s i] by blast
next
  fix k s
  assume "k < rl \<and> follow (instrs m) k d = s \<and> s < length (instrs m) \<and>
      \<not> jump_at (instrs m) s"
  then show "final_target_at rl m d = Inr (Instr s (instrs m ! s))"
    using final_target_at_reaches [of k rl m d s] by blast
next
  assume "\<forall>k. jump_at (instrs m) (follow (instrs m) k d)"
  then show "optimize_goto rl m (Instr i (Goto d)) = Inl RecursionError"
    by (intro optimize_goto_limit) blast
next
  assume "\<forall>k. jump_at (instrs m) (follow (instrs m) k d)"
  then show "final_target_at rl m d = Inl RecursionError"
    by (rule final_target_at_cycle)
next
  fix ctx :: analysis_context and fin bb
  assume cyc: "\<forall>k. jump_at (instrs m) (follow (instrs m) k d)"
    and "ctx_mlil ctx = Some m \<and> bb \<in> set (basic_blocks m) \<and>
      instrs m ! (bb_end bb - 1) = Goto d"
  then show "\<exists>e. pass_clear_goto rl fin ctx = Inl e"
    using pass_clear_goto_cycle [of ctx m bb d rl fin] by blast
next
  fix ctx :: analysis_context and fin bb c t f
  assume cyc: "\<forall>k. jump_at (instrs m) (follow (instrs m) k d)"
    and h: "ctx_mlil ctx = Some m \<and> bb \<in> set (basic_blocks m) \<and>
      instrs m ! (bb_end bb - 1) = If_op c t f \<and> (t = d \<or> f = d)"
  from cyc h have "(\<forall>k. jump_at (instrs m) (follow (instrs m) k t)) \<or>
      (\<forall>k. jump_at (instrs m) (follow (instrs m) k f))" by blast
  with h show "\<exists>e. pass_clear_if rl fin ctx = Inl e"
    using pass_clear_if_cycle [of ctx m bb c t f rl fin] by blast
qed

theorem chain_following_bounded_by_recursion_limit_witness:
  "optimize_goto 1000 cycle_example (Instr 1 (Goto 2)) = Inl RecursionError \<and>
   final_target_at 1000 cycle_example 2 = Inl RecursionError \<and>
   (\<exists>e. pass_clear_goto 1000 leader_blocks
          \<lparr>ctx_mlil = Some cycle_example, ctx_function_mlil = None\<rparr> = Inl e) \<and>
   (\<exists>e. pass_clear_if 1000 leader_blocks
          \<lparr>ctx_mlil = Some cycle_example, ctx_function_mlil = None\<rparr> = Inl e) \<and>
   (\<exists>m'. optimize_goto 1000 chain_example (Instr 0 (Goto 1)) = Inr (Instr 2 (Ret 0), m') \<and>
         instrs m' = instrs chain_example) \<and>
   final_target_at 1000 chain_example 1 = Inr (Instr 2 (Ret 0)) \<and>
   optimize_goto 1 chain_example (Instr 0 (Goto 1)) = Inl RecursionError \<and>
   final_target_at 1 chain_example 1 = Inl RecursionError"
proof -
  let ?ctx = "\<lparr>ctx_mlil = Some cycle_example, ctx_function_mlil = None\<rparr>"
  note C = chain_following_bounded_by_recursion_limit [of cycle_example 1000 2 1]
  note S = chain_following_bounded_by_recursion_limit [of chain_example 1000 1 0]
  note L = chain_following_bounded_by_recursion_limit [of chain_example 1 1 0]
  have cyc: "\<forall>k. jump_at (instrs cycle_example) (follow (instrs cycle_example) k 2)"
    using cycle_example_jumps by blast
  note C4 = C [THEN conjunct2, THEN conjunct2, THEN conjunct2, THEN mp, OF cyc]
  have og: "optimize_goto 1000 cycle_example (Instr 1 (Goto 2)) = Inl RecursionError"
    and ft: "final_target_at 1000 cycle_example 2 = Inl RecursionError"
    using C4 by simp_all
  have "ctx_mlil ?ctx = Some cycle_example \<and> Block 1 2 \<in> set (basic_blocks cycle_example) \<and>
      instrs cycle_example ! (bb_end (Block 1 2) - 1) = Goto 2"
    by (simp add: cycle_example_def)
  with C4 have pg: "\<exists>e. pass_clear_goto 1000 leader_blocks ?ctx = Inl e" by blast
  have "ctx_mlil ?ctx = Some cycle_example \<and> Block 0 1 \<in> set (basic_blocks cycle_example) \<and>
      instrs cycle_example ! (bb_end (Block 0 1) - 1) = If_op (Var 0) 1 2 \<and>
      ((1::nat) = 2 \<or> (2::nat) = 2)"
    by (simp add: cycle_example_def)
  with C4 have pi: "\<exists>e. pass_clear_if 1000 leader_blocks ?ctx = Inl e" by blast
  have "Suc 0 < (1000::nat) \<and> follow (instrs chain_example) (Suc 0) 1 = 2 \<and>
      2 < length (instrs chain_example) \<and> \<not> jump_at (instrs chain_example) 2"
    by (simp add: chain_example_def jump_at_def)
  from S [THEN conjunct2, THEN conjunct2, THEN conjunct1, rule_format, OF this]
  have sk: "(\<exists>m'. optimize_goto 1000 chain_example (Instr 0 (Goto 1)) = Inr (Instr 2 (Ret 0), m') \<and>
         instrs m' = instrs chain_example) \<and>
      final_target_at 1000 chain_example 1 = Inr (Instr 2 (Ret 0))"
    by (simp add: chain_example_def) blast
  have j: "jump_at (instrs chain_example) (follow (instrs chain_example) (1 - 1) 1)"
    "follow (instrs chain_example) 1 1 < length (instrs chain_example)"
    by (simp_all add: chain_example_def jump_at_def)
  from L [THEN conjunct1] j(1)
  have l1: "optimize_goto 1 chain_example (Instr 0 (Goto 1)) = Inl RecursionError" by blast
  from L [THEN conjunct2, THEN conjunct1] j
  have l2: "final_target_at 1 chain_example 1 = Inl RecursionError" by blast
  from og ft pg pi sk l1 l2 show ?thesis by blast
qed

subsection \<open>Bounded rounds\<close>

text \<open>
  C8. Each of the four passes, when it runs to its end, has run at most as many scans as
  the function had blocks at the start (twice as many for \<^verbatim>\<open>pass_merge_block\<close>);
  every scan that has updated is followed by \<^verbatim>\<open>finalize\<close> and
  \<^verbatim>\<open>generate_ssa_form\<close> before the next scan; the first scan that has not updated ends
  the loop. A scan reports an update exactly when it has changed the instructions.
  \<^verbatim>\<open>pass_clear_const_if\<close> runs to its end when the blocks lie inside the function;
  \<^verbatim>\<open>pass_clear_goto\<close> and \<^verbatim>\<open>pass_clear_if\<close> do so when, in addition, every chain
  of jumps reaches its sink within the recursion limit.
\<close>

theorem passes_run_bounded_rounds:
  assumes "ctx_mlil ctx = Some m"
  shows "(\<forall>ctx'. pass_clear_const_if fin ctx = Inr ctx' \<longrightarrow>
            bounded_rounds (length (basic_blocks m)) m ctx') \<and>
         (\<forall>ctx'. pass_clear_goto rl fin ctx = Inr ctx' \<longrightarrow>
            bounded_rounds (length (basic_blocks m)) m ctx') \<and>
         (\<forall>ctx'. pass_clear_if rl fin ctx = Inr ctx' \<longrightarrow>
            bounded_rounds (length (basic_blocks m)) m ctx') \<and>
         (\<forall>ctx'. pass_merge_block fin inc ctx = Inr ctx' \<longrightarrow>
            bounded_rounds (length (basic_blocks m) * 2) m ctx') \<and>
         (\<forall>m0 bbs m' u. const_if_scan m0 False bbs = Inr (m', u) \<longrightarrow> u = (instrs m' \<noteq> instrs m0)) \<and>
         (\<forall>m0 bbs m' u. goto_scan rl m0 False bbs = Inr (m', u) \<longrightarrow> u = (instrs m' \<noteq> instrs m0)) \<and>
         (\<forall>m0 bbs m' u. if_scan rl m0 False bbs = Inr (m', u) \<longrightarrow> u = (instrs m' \<noteq> instrs m0)) \<and>
         (\<forall>m0 bbs m' u. merge_scan inc m0 bbs = Inr (m', u) \<longrightarrow> u = (instrs m' \<noteq> instrs m0)) \<and>
         (wf_fin fin \<and> (\<forall>bb \<in> set (basic_blocks m). wf_block (instrs m) bb) \<longrightarrow>
            (\<exists>ctx'. pass_clear_const_if fin ctx = Inr ctx') \<and>
            (chains_resolve rl (instrs m) \<longrightarrow>
               (\<exists>ctx'. pass_clear_goto rl fin ctx = Inr ctx') \<and>
               (\<exists>ctx'. pass_clear_if rl fin ctx = Inr ctx')))"
proof (intro conjI allI impI)
  fix ctx' assume "pass_clear_const_if fin ctx = Inr ctx'"
  then show "bounded_rounds (length (basic_blocks m)) m ctx'"
    by (rule pass_clear_const_if_rounds [OF assms])
next
  fix ctx' assume "pass_clear_goto rl fin ctx = Inr ctx'"
  then show "bounded_rounds (length (basic_blocks m)) m ctx'"
    by (rule pass_clear_goto_rounds [OF assms])
next
  fix ctx' assume "pass_clear_if rl fin ctx = Inr ctx'"
  then show "bounded_rounds (length (basic_blocks m)) m ctx'"
    by (rule pass_clear_if_rounds [OF assms])
next
  fix ctx' assume "pass_merge_block fin inc ctx = Inr ctx'"
  then show "bounded_rounds (length (basic_blocks m) * 2) m ctx'"
    by (rule pass_merge_block_rounds [OF assms])
next
  fix m0 bbs m' u assume "const_if_scan m0 False bbs = Inr (m', u)"
  from const_if_scan_Inr [OF this] show "u = (instrs m' \<noteq> instrs m0)" by simp
next
  fix m0 bbs m' u assume "goto_scan rl m0 False bbs = Inr (m', u)"
  then show "u = (instrs m' \<noteq> instrs m0)" by (rule goto_scan_flag)
next
  fix m0 bbs m' u assume "if_scan rl m0 False bbs = Inr (m', u)"
  then show "u = (instrs m' \<noteq> instrs m0)" by (rule if_scan_flag)
next
  fix m0 bbs m' u assume "merge_scan inc m0 bbs = Inr (m', u)"
  then show "u = (instrs m' \<noteq> instrs m0)" by (rule merge_scan_flag)
next
  assume "wf_fin fin \<and> (\<forall>bb \<in> set (basic_blocks m). wf_block (instrs m) bb)"
  then show "\<exists>ctx'. pass_clear_const_if fin ctx = Inr ctx'"
    using pass_clear_const_if_total [OF assms] by blast
next
  assume "wf_fin fin \<and> (\<forall>bb \<in> set (basic_blocks m). wf_block (instrs m) bb)"
    and "chains_resolve rl (instrs m)"
  then show "\<exists>ctx'. pass_clear_goto rl fin ctx = Inr ctx'"
    using pass_clear_goto_total [OF assms] by blast
next
  assume "wf_fin fin \<and> (\<forall>bb \<in> set (basic_blocks m). wf_block (instrs m) bb)"
    and "chains_resolve rl (instrs m)"
  then show "\<exists>ctx'. pass_clear_if rl fin ctx = Inr ctx'"
    using pass_clear_if_total [OF assms] by blast
qed

theorem passes_run_bounded_rounds_witness:
  "\<exists>c1 c2 c3 c4.
     pass_clear_const_if leader_blocks \<lparr>ctx_mlil = Some fold_example, ctx_function_mlil = None\<rparr> =
       Inr c1 \<and>
     bounded_rounds (length (basic_blocks fold_example)) fold_example c1 \<and>
     pass_clear_goto 1000 leader_blocks \<lparr>ctx_mlil = Some chain_example, ctx_function_mlil = None\<rparr> =
       Inr c2 \<and>
     bounded_rounds (length (basic_blocks chain_example)) chain_example c2 \<and>
     pass_clear_if 1000 leader_blocks \<lparr>ctx_mlil = Some branch_example, ctx_function_mlil = None\<rparr> =
       Inr c3 \<and>
     bounded_rounds (length (basic_blocks branch_example)) branch_example c3 \<and>
     pass_merge_block leader_blocks MLIL_get_incoming_blocks
       \<lparr>ctx_mlil = Some two_pairs_example, ctx_function_mlil = None\<rparr> = Inr c4 \<and>
     bounded_rounds (length (basic_blocks two_pairs_example) * 2) two_pairs_example c4 \<and>
     (\<exists>m'. goto_scan 1000 chain_example False (basic_blocks chain_example) = Inr (m', True) \<and>
           instrs m' \<noteq> instrs chain_example)"
proof -
  let ?a = "\<lparr>ctx_mlil = Some fold_example, ctx_function_mlil = None\<rparr>"
  let ?b = "\<lparr>ctx_mlil = Some chain_example, ctx_function_mlil = None\<rparr>"
  let ?c = "\<lparr>ctx_mlil = Some branch_example, ctx_function_mlil = None\<rparr>"
  let ?d = "\<lparr>ctx_mlil = Some two_pairs_example, ctx_function_mlil = None\<rparr>"
  have a: "ctx_mlil ?a = Some fold_example" and b: "ctx_mlil ?b = Some chain_example"
    and c: "ctx_mlil ?c = Some branch_example" and d: "ctx_mlil ?d = Some two_pairs_example"
    by simp_all
  note A = passes_run_bounded_rounds [OF a, of leader_blocks 1000 MLIL_get_incoming_blocks]
  note B = passes_run_bounded_rounds [OF b, of leader_blocks 1000 MLIL_get_incoming_blocks]
  note C = passes_run_bounded_rounds [OF c, of leader_blocks 1000 MLIL_get_incoming_blocks]
  note D = passes_run_bounded_rounds [OF d, of leader_blocks 1000 MLIL_get_incoming_blocks]
  have wfa: "wf_fin leader_blocks \<and>
      (\<forall>bb \<in> set (basic_blocks fold_example). wf_block (instrs fold_example) bb)"
    using leader_blocks_wf by (simp add: fold_example_def wf_block_def)
  have wfb: "wf_fin leader_blocks \<and>
      (\<forall>bb \<in> set (basic_blocks chain_example). wf_block (instrs chain_example) bb)"
    using leader_blocks_wf by (simp add: chain_example_def wf_block_def)
  have wfc: "wf_fin leader_blocks \<and>
      (\<forall>bb \<in> set (basic_blocks branch_example). wf_block (instrs branch_example) bb)"
    using leader_blocks_wf by (simp add: branch_example_def wf_block_def)
  have crb: "chains_resolve 1000 (instrs chain_example)" by code_simp
  have crc: "chains_resolve 1000 (instrs branch_example)" by code_simp
  from A [THEN conjunct2, THEN conjunct2, THEN conjunct2, THEN conjunct2, THEN conjunct2, THEN conjunct2, THEN conjunct2, THEN conjunct2, THEN mp, OF wfa, THEN conjunct1]
  obtain c1 where c1: "pass_clear_const_if leader_blocks ?a = Inr c1" by blast
  from B [THEN conjunct2, THEN conjunct2, THEN conjunct2, THEN conjunct2, THEN conjunct2, THEN conjunct2, THEN conjunct2, THEN conjunct2, THEN mp, OF wfb, THEN conjunct2, THEN mp, OF crb, THEN conjunct1]
  obtain c2 where c2: "pass_clear_goto 1000 leader_blocks ?b = Inr c2" by blast
  from C [THEN conjunct2, THEN conjunct2, THEN conjunct2, THEN conjunct2, THEN conjunct2, THEN conjunct2, THEN conjunct2, THEN conjunct2, THEN mp, OF wfc, THEN conjunct2, THEN mp, OF crc, THEN conjunct2]
  obtain c3 where c3: "pass_clear_if 1000 leader_blocks ?c = Inr c3" by blast
  have "case pass_merge_block leader_blocks MLIL_get_incoming_blocks ?d of
          Inr c \<Rightarrow> True | Inl e \<Rightarrow> False"
    by code_simp
  then obtain c4 where c4: "pass_merge_block leader_blocks MLIL_get_incoming_blocks ?d = Inr c4"
    by (cases "pass_merge_block leader_blocks MLIL_get_incoming_blocks ?d") auto
  from A [THEN conjunct1, rule_format, OF c1]
  have r1: "bounded_rounds (length (basic_blocks fold_example)) fold_example c1" .
  from B [THEN conjunct2, THEN conjunct1, rule_format, OF c2]
  have r2: "bounded_rounds (length (basic_blocks chain_example)) chain_example c2" .
  from C [THEN conjunct2, THEN conjunct2, THEN conjunct1, rule_format, OF c3]
  have r3: "bounded_rounds (length (basic_blocks branch_example)) branch_example c3" .
  from D [THEN conjunct2, THEN conjunct2, THEN conjunct2, THEN conjunct1, rule_format, OF c4]
  have r4: "bounded_rounds (length (basic_blocks two_pairs_example) * 2) two_pairs_example c4" .
  have "case goto_scan 1000 chain_example False (basic_blocks chain_example) of
          Inr (m', u) \<Rightarrow> u | Inl e \<Rightarrow> False"
    by code_simp
  then obtain m' where s: "goto_scan 1000 chain_example False (basic_blocks chain_example) = Inr (m', True)"
    by (auto split: sum.splits)
  from B [THEN conjunct2, THEN conjunct2, THEN conjunct2, THEN conjunct2, THEN conjunct2, THEN conjunct1, rule_format, OF s]
  have "instrs m' \<noteq> instrs chain_example" by simp
  with s have fl: "\<exists>m'. goto_scan 1000 chain_example False (basic_blocks chain_example) = Inr (m', True) \<and>
           instrs m' \<noteq> instrs chain_example" by blast
  from c1 c2 c3 c4 r1 r2 r3 r4 fl show ?thesis by blast
qed

end
